theory Spec2Isabelle
  imports Main "HOL-Library.Word" "HOL-Library.Signed_Division"
begin

section \<open>The simulated timer of simtest (timer.go)\<close>

text \<open>
  The development embeds \<^verbatim>\<open>SimTimer\<close> and its three methods \<^verbatim>\<open>Reset\<close>,
  \<^verbatim>\<open>Stop\<close> and \<^verbatim>\<open>fire\<close> of \<^verbatim>\<open>timer.go\<close>.

  \<^item> A \<^verbatim>\<open>time.Time\<close> is an instant of the standard library: a count of seconds
    since the first of January of the year 1, held in an \<^verbatim>\<open>int64\<close>, and a count of
    nanoseconds within the second. It is read here as the
    integer \<open>seconds * 10^9 + nanoseconds\<close>, so that \<^verbatim>\<open>t.After(u)\<close> is \<open>u < t\<close> and
    \<^verbatim>\<open>t.Equal(u)\<close> is \<open>t = u\<close>. \<^verbatim>\<open>t.Add(d)\<close> follows the library: it adds seconds
    and nanoseconds apart, and where the sum of the seconds leaves the \<^verbatim>\<open>int64\<close> range
    it stops at the end of the range. The monotonic clock reading that some instants carry
    beside the wall clock is outside the model.
  \<^item> A \<^verbatim>\<open>time.Duration\<close> is an \<^verbatim>\<open>int64\<close> of nanoseconds: a 64-bit word read
    as two's complement by \<open>sint\<close>.
  \<^item> A channel is the list of the values it has taken, oldest first, together with the
    number of values it can take. A send on a channel that can take no more does not
    return until a receiver makes room: the sender is parked, and the model reports this
    as a result of its own.
  \<^item> Every method locks \<^verbatim>\<open>timer.mu\<close> on entry and unlocks it on return, so the
    bodies of two calls on one timer never overlap: each method is one atomic function on
    the timer's state. A call parked at a send keeps the mutex, so no other method of the
    timer runs while it is parked: what happens to one timer is a sequence of completed
    calls, followed by at most one parked call.
\<close>

subsection \<open>Time\<close>

type_synonym Time = int
type_synonym Duration = "64 word"

text \<open>The two parts of an instant.\<close>

definition sec :: "Time \<Rightarrow> int" where
  "sec t = t div 1000000000"

definition nsec :: "Time \<Rightarrow> int" where
  "nsec t = t mod 1000000000"

text \<open>The instants the library's type holds: those whose seconds fit an \<^verbatim>\<open>int64\<close>.\<close>

definition representable :: "Time \<Rightarrow> bool" where
  "representable t = (- (2 ^ 63) \<le> sec t \<and> sec t \<le> 2 ^ 63 - 1)"

text \<open>Addition of \<^verbatim>\<open>int64\<close> values as the machine does it.\<close>

definition wrap64 :: "int \<Rightarrow> int" where
  "wrap64 x = (x + 2 ^ 63) mod 2 ^ 64 - 2 ^ 63"

text \<open>
  The library's \<^verbatim>\<open>addSec\<close> on an instant without monotonic reading:
  \<^verbatim>\<open>sum := t.ext + d\<close>, kept when it did not overflow, and otherwise replaced by
  \<^verbatim>\<open>1<<63 - 1\<close> or \<^verbatim>\<open>-(1<<63 - 1)\<close>.
\<close>

definition addSec :: "int \<Rightarrow> int \<Rightarrow> int" where
  "addSec ext d =
     (let sum = wrap64 (ext + d) in
      if (sum > ext) = (d > 0) then sum
      else if d > 0 then 2 ^ 63 - 1
      else - (2 ^ 63 - 1))"

text \<open>
  The library's \<^verbatim>\<open>Add\<close>: \<^verbatim>\<open>d / 1e9\<close> and \<^verbatim>\<open>d % 1e9\<close> round towards zero
  (\<open>sdiv\<close>, \<open>smod\<close>); the nanoseconds are brought back into one second, and the seconds
  are added by \<^verbatim>\<open>addSec\<close>.
\<close>

definition Add :: "Time \<Rightarrow> Duration \<Rightarrow> Time" where
  "Add t d =
     (let dsec = sint d sdiv 1000000000;
          nsec' = nsec t + sint d smod 1000000000;
          (dsec, nsec') =
            (if nsec' \<ge> 1000000000 then (dsec + 1, nsec' - 1000000000)
             else if nsec' < 0 then (dsec - 1, nsec' + 1000000000)
             else (dsec, nsec'))
      in addSec (sec t) dsec * 1000000000 + nsec')"

definition After :: "Time \<Rightarrow> Time \<Rightarrow> bool" where
  "After t u = (u < t)"

definition Equal :: "Time \<Rightarrow> Time \<Rightarrow> bool" where
  "Equal t u = (t = u)"

text \<open>
  The deadlines that successive additions of the durations \<open>ds\<close> to \<open>t\<close> pass through
  are all representable.
\<close>

fun sums_representable :: "Time \<Rightarrow> Duration list \<Rightarrow> bool" where
  "sums_representable t [] = True"
| "sums_representable t (d # ds) =
     (representable (t + sint d) \<and> sums_representable (t + sint d) ds)"

subsection \<open>Data\<close>

text \<open>A pointer to a timer, as the registry receives it.\<close>

type_synonym ptr = nat

text \<open>
  The struct \<^verbatim>\<open>SimTimer\<close>. The field \<open>ch\<close> is the buffer of the channel made by
  \<^verbatim>\<open>make(chan time.Time, 1)\<close>. The mutex \<^verbatim>\<open>mu\<close> is the atomicity of the methods.
  The field \<^verbatim>\<open>events\<close> points to an object shared with the clock, which the methods
  receive as an argument of its own.
\<close>

record SimTimer =
  ch :: "Time list"
  stopped :: bool
  deadline :: Time

text \<open>
  Modelled from the spec: the type \<^verbatim>\<open>timerEvents\<close> is declared outside
  \<^verbatim>\<open>timer.go\<close>. It holds the coordination channels of the registry's event loop, of
  which the timer uses \<^verbatim>\<open>remove\<close>: "remove(timer): erase from the live set". The
  field \<open>remove\<close> is the sequence of the timers the channel has taken, oldest first. The
  field \<open>remove_cap\<close> is the number of messages the channel takes in all before a send on
  it parks: the room of its buffer and the receives the event loop makes. A loop that has
  been stopped receives no more ("after this, further add/remove/tick messages are
  rejected"), and neither does a loop that is itself waiting for the timer's mutex.
\<close>

record timerEvents =
  remove :: "ptr list"
  remove_cap :: nat

subsection \<open>Channels\<close>

text \<open>The capacity given to \<^verbatim>\<open>make\<close> in \<^verbatim>\<open>newSimTimer\<close>.\<close>

definition ch_cap :: nat where
  "ch_cap = 1"

text \<open>
  \<^verbatim>\<open>c <- v\<close>: the channel takes the value when it has room (\<open>Some\<close> of the new
  contents); otherwise the sender is parked (\<open>None\<close>).
\<close>

definition chan_send :: "nat \<Rightarrow> 'a list \<Rightarrow> 'a \<Rightarrow> 'a list option" where
  "chan_send cap buf v = (if length buf < cap then Some (buf @ [v]) else None)"

text \<open>
  The consumer's side, as the tests use it (\<^verbatim>\<open>select { case now := <-ch: ... default: ... }\<close>):
  a receive that takes the oldest value when there is one and does not wait otherwise.
\<close>

fun chan_recv :: "'a list \<Rightarrow> 'a option \<times> 'a list" where
  "chan_recv [] = (None, [])"
| "chan_recv (v # vs) = (Some v, vs)"

subsection \<open>The constructor and the methods\<close>

text \<open>
  \<^verbatim>\<open>newSimTimer\<close>: an empty channel of capacity one, \<^verbatim>\<open>stopped = false\<close>, the given
  deadline. Its assertions on \<^verbatim>\<open>events\<close> (a non-nil pointer with non-nil channels)
  hold of every \<open>timerEvents\<close> value of the model.
\<close>

definition newSimTimer :: "Time \<Rightarrow> SimTimer" where
  "newSimTimer dl = \<lparr>ch = [], stopped = False, deadline = dl\<rparr>"

definition Reset :: "Duration \<Rightarrow> SimTimer \<Rightarrow> bool \<times> SimTimer" where
  "Reset d timer =
     (if stopped timer then (False, timer)
      else (True, timer\<lparr>deadline := Add (deadline timer) d\<rparr>))"

text \<open>
  \<^verbatim>\<open>Stop\<close> sends the receiver itself (\<open>self\<close>) on \<^verbatim>\<open>timer.events.remove\<close> and
  then sets the flag. While the channel does not take the message the call is parked at
  the send, with the mutex held and the flag still false: the result is \<open>Inl\<close> of the
  timer's state at that moment. Otherwise it is \<open>Inr\<close> of the returned boolean, the new
  state of the timer and that of the channel.
\<close>

definition Stop :: "ptr \<Rightarrow> SimTimer \<Rightarrow> timerEvents \<Rightarrow> SimTimer + bool \<times> SimTimer \<times> timerEvents" where
  "Stop self timer events =
     (if stopped timer then Inr (False, timer, events)
      else
        case chan_send (remove_cap events) (remove events) self of
          None \<Rightarrow> Inl timer
        | Some buf \<Rightarrow> Inr (True, timer\<lparr>stopped := True\<rparr>, events\<lparr>remove := buf\<rparr>))"

text \<open>
  \<^verbatim>\<open>fire\<close> sets the flag and then sends \<open>now\<close> on the timer's channel. When the
  buffer is full the call is parked at the send with the mutex held and the flag already
  set: the result is \<open>Inl\<close> of the timer's state at that moment. Otherwise it is \<open>Inr\<close>
  of the returned boolean and the new state.
\<close>

definition fire :: "Time \<Rightarrow> SimTimer \<Rightarrow> SimTimer + bool \<times> SimTimer" where
  "fire now timer =
     (if stopped timer then Inr (False, timer)
      else
        let passedDeadline = (After now (deadline timer) \<or> Equal now (deadline timer)) in
        if \<not> passedDeadline then Inr (False, timer)
        else
          let timer' = timer\<lparr>stopped := True\<rparr> in
          case chan_send ch_cap (ch timer') now of
            None \<Rightarrow> Inl timer'
          | Some buf \<Rightarrow> Inr (True, timer'\<lparr>ch := buf\<rparr>))"

subsection \<open>Sequences of calls on one timer\<close>

text \<open>
  The calls that can reach one timer: the three methods, and a receive on its channel by
  whoever holds the receiving end.
\<close>

datatype call = CallReset Duration | CallStop | CallFire Time | CallRecv

text \<open>What a call gives back: the boolean of a method, or what a receive found.\<close>

datatype answer = Returned bool | Received "Time option"

text \<open>Where a call is parked, and the state of the timer there.\<close>

datatype parked = ParkedStop SimTimer | ParkedFire SimTimer

text \<open>
  One call on the timer \<open>self\<close> in the state \<open>(timer, events)\<close>: \<open>Inl\<close> when the call
  is parked, otherwise its answer and the state after it.
\<close>

fun step :: "ptr \<Rightarrow> call \<Rightarrow> SimTimer \<times> timerEvents \<Rightarrow>
    parked + answer \<times> SimTimer \<times> timerEvents" where
  "step self (CallReset d) (timer, events) =
     (case Reset d timer of (b, timer') \<Rightarrow> Inr (Returned b, timer', events))"
| "step self CallStop (timer, events) =
     (case Stop self timer events of
        Inl timer' \<Rightarrow> Inl (ParkedStop timer')
      | Inr (b, timer', events') \<Rightarrow> Inr (Returned b, timer', events'))"
| "step self (CallFire now) (timer, events) =
     (case fire now timer of
        Inl timer' \<Rightarrow> Inl (ParkedFire timer')
      | Inr (b, timer') \<Rightarrow> Inr (Returned b, timer', events))"
| "step self CallRecv (timer, events) =
     (case chan_recv (ch timer) of (v, buf) \<Rightarrow> Inr (Received v, timer\<lparr>ch := buf\<rparr>, events))"

text \<open>
  A history records, for each call completed, the call, its answer, and the timer before
  and after it.
\<close>

type_synonym entry = "call \<times> answer \<times> SimTimer \<times> SimTimer"

text \<open>
  The calls of a list, made in order. The run ends at the first call that is parked:
  \<open>Inl\<close> of the history of the calls completed before it and of where it is parked.
  Otherwise it gives the history of all the calls and the final state.
\<close>

fun exec :: "ptr \<Rightarrow> call list \<Rightarrow> SimTimer \<times> timerEvents \<Rightarrow>
    entry list \<times> parked + entry list \<times> SimTimer \<times> timerEvents" where
  "exec self [] s = Inr ([], s)"
| "exec self (c # cs) s =
     (case step self c s of
        Inl p \<Rightarrow> Inl ([], p)
      | Inr (a, s') \<Rightarrow>
          (case exec self cs s' of
             Inl (h, p) \<Rightarrow> Inl ((c, a, fst s, fst s') # h, p)
           | Inr (h, s'') \<Rightarrow> Inr ((c, a, fst s, fst s') # h, s'')))"

text \<open>The calls a run completed, whether it ran to its end or not.\<close>

fun history :: "entry list \<times> parked + entry list \<times> SimTimer \<times> timerEvents \<Rightarrow> entry list" where
  "history (Inl (h, p)) = h"
| "history (Inr (h, s)) = h"

text \<open>The entries of a history in which the flag goes from false to true.\<close>

fun flips :: "entry \<Rightarrow> bool" where
  "flips (c, a, before, after) = (\<not> stopped before \<and> stopped after)"

text \<open>The entries in which \<^verbatim>\<open>fire\<close> sent a value, and those in which \<^verbatim>\<open>Stop\<close> returned true.\<close>

fun delivers :: "entry \<Rightarrow> bool" where
  "delivers (CallFire now, Returned b, before, after) = b"
| "delivers _ = False"

fun stop_true :: "entry \<Rightarrow> bool" where
  "stop_true (CallStop, Returned b, before, after) = b"
| "stop_true _ = False"

text \<open>
  The state every timer made by \<^verbatim>\<open>newSimTimer\<close> keeps: while the flag is false
  nothing has been sent, and whatever is in the buffer is a single value at or after the
  deadline.
\<close>

definition timer_inv :: "SimTimer \<Rightarrow> bool" where
  "timer_inv timer =
     ((stopped timer \<or> ch timer = []) \<and> length (ch timer) \<le> 1 \<and>
      list_all (\<lambda>v. deadline timer \<le> v) (ch timer))"

text \<open>
  The \<^verbatim>\<open>remove\<close> channel takes one more message. A timer sends on it at most once, so
  this is all the room the calls on one timer need.
\<close>

definition has_room :: "timerEvents \<Rightarrow> bool" where
  "has_room events = (length (remove events) < remove_cap events)"

section \<open>Properties\<close>

subsection \<open>The library's addition inside the range\<close>

lemma wrap64_id: "- (2 ^ 63) \<le> x \<Longrightarrow> x \<le> 2 ^ 63 - 1 \<Longrightarrow> wrap64 x = x"
  by (simp add: wrap64_def)

lemma addSec_exact:
  assumes "- (2 ^ 63) \<le> ext + d" and "ext + d \<le> 2 ^ 63 - 1"
  shows "addSec ext d = ext + d"
  using assms by (auto simp: addSec_def Let_def wrap64_id)

lemma sec_nsec_unique:
  assumes "x = q * 1000000000 + n" and "0 \<le> n" and "n < 1000000000"
  shows "sec x = q \<and> nsec x = n"
proof -
  from assms have "x div 1000000000 = q"
    by (simp add: div_pos_pos_trivial)
  moreover from assms have "x mod 1000000000 = n"
    by (simp add: mod_pos_pos_trivial)
  ultimately show ?thesis by (simp add: sec_def nsec_def)
qed

text \<open>Where the sum is representable, \<^verbatim>\<open>Add\<close> is the sum.\<close>

lemma Add_exact:
  assumes "representable (t + sint d)"
  shows "Add t d = t + sint d"
proof -
  define D where "D = sint d"
  define q where "q = D sdiv 1000000000"
  define r where "r = D smod 1000000000"
  define s where "s = sec t"
  define n where "n = nsec t"
  have split: "q * 1000000000 + r = D"
    unfolding q_def r_def by (rule sdiv_mult_smod_eq)
  have rb: "- 1000000000 < r" "r < 1000000000"
    unfolding r_def by (auto simp: signed_modulo_int_def sgn_if abs_if)
  have t: "t = s * 1000000000 + n" and nb: "0 \<le> n" "n < 1000000000"
    unfolding s_def n_def sec_def nsec_def by simp_all
  define dsec where
    "dsec = (if n + r \<ge> 1000000000 then q + 1 else if n + r < 0 then q - 1 else q)"
  define n' where
    "n' = (if n + r \<ge> 1000000000 then n + r - 1000000000
           else if n + r < 0 then n + r + 1000000000 else n + r)"
  have sum: "t + D = (s + dsec) * 1000000000 + n'"
    using t split by (simp add: dsec_def n'_def algebra_simps)
  have n'b: "0 \<le> n'" "n' < 1000000000"
    using nb rb by (simp_all add: n'_def)
  from sec_nsec_unique [OF sum n'b] have "sec (t + D) = s + dsec" by simp
  with assms have "- (2 ^ 63) \<le> s + dsec" "s + dsec \<le> 2 ^ 63 - 1"
    by (simp_all add: representable_def D_def)
  then have "addSec s dsec = s + dsec" by (rule addSec_exact)
  moreover have "Add t d = addSec s dsec * 1000000000 + n'"
    by (simp add: Add_def Let_def dsec_def n'_def s_def n_def q_def r_def D_def)
  ultimately show ?thesis using sum by (simp add: D_def)
qed

subsection \<open>Single calls\<close>

lemma Reset_stopped: "stopped timer \<Longrightarrow> Reset d timer = (False, timer)"
  by (simp add: Reset_def)

lemma Stop_stopped: "stopped timer \<Longrightarrow> Stop self timer events = Inr (False, timer, events)"
  by (simp add: Stop_def)

lemma fire_stopped: "stopped timer \<Longrightarrow> fire now timer = Inr (False, timer)"
  by (simp add: fire_def)

lemma step_stopped:
  assumes "stopped timer" and "c \<noteq> CallRecv"
  shows "step self c (timer, events) = Inr (Returned False, timer, events)"
  using assms by (cases c) (simp_all add: Reset_stopped Stop_stopped fire_stopped)

lemma Stop_room:
  assumes "\<not> stopped timer" and "has_room events"
  shows "Stop self timer events
    = Inr (True, timer\<lparr>stopped := True\<rparr>, events\<lparr>remove := remove events @ [self]\<rparr>)"
  using assms by (simp add: Stop_def chan_send_def has_room_def)

lemma Stop_parks:
  assumes "\<not> stopped timer" and "\<not> has_room events"
  shows "Stop self timer events = Inl timer"
  using assms by (simp add: Stop_def chan_send_def has_room_def)

lemma fire_ready:
  assumes "\<not> stopped timer" and "ch timer = []" and "deadline timer \<le> now"
  shows "fire now timer = Inr (True, timer\<lparr>stopped := True, ch := [now]\<rparr>)"
  using assms by (auto simp: fire_def After_def Equal_def chan_send_def ch_cap_def)

lemma fire_early:
  assumes "\<not> stopped timer" and "now < deadline timer"
  shows "fire now timer = Inr (False, timer)"
  using assms by (simp add: fire_def After_def Equal_def)

text \<open>What a call of \<^verbatim>\<open>fire\<close> that returns true found and left.\<close>

lemma fire_True:
  assumes "fire now timer = Inr (True, timer')"
  shows "\<not> stopped timer \<and> ch timer = [] \<and> deadline timer \<le> now
    \<and> timer' = timer\<lparr>stopped := True, ch := [now]\<rparr>"
  using assms
  by (auto simp: fire_def Let_def chan_send_def ch_cap_def After_def Equal_def
      split: if_splits)

lemma fire_inv_returns:
  assumes "timer_inv timer"
  shows "\<exists>b timer'. fire now timer = Inr (b, timer')"
  using assms
  by (auto simp: fire_def Let_def chan_send_def ch_cap_def timer_inv_def)

subsection \<open>What one call does to the flag, the deadline and the buffer\<close>

lemma step_cases:
  assumes "step self c (timer, events) = Inr (a, timer', events')"
  shows "(stopped timer \<longrightarrow> stopped timer' \<and> deadline timer' = deadline timer \<and> events' = events)
    \<and> (flips (c, a, timer, timer') = (delivers (c, a, timer, timer') \<or> stop_true (c, a, timer, timer')))
    \<and> \<not> (delivers (c, a, timer, timer') \<and> stop_true (c, a, timer, timer'))"
proof (cases c)
  case (CallReset d)
  with assms show ?thesis by (auto simp: Reset_def split: if_splits)
next
  case CallStop
  with assms show ?thesis
    by (auto simp: Stop_def split: if_splits option.splits sum.splits)
next
  case (CallFire now)
  with assms show ?thesis
    by (auto simp: fire_def Let_def chan_send_def split: if_splits)
next
  case CallRecv
  with assms show ?thesis by (auto split: prod.splits)
qed

text \<open>A completed call keeps the invariant.\<close>

lemma step_inv:
  assumes "step self c (timer, events) = Inr (a, timer', events')" and "timer_inv timer"
  shows "timer_inv timer'"
proof (cases c)
  case (CallReset d)
  with assms show ?thesis by (auto simp: Reset_def timer_inv_def split: if_splits)
next
  case CallStop
  with assms show ?thesis
    by (auto simp: Stop_def timer_inv_def split: if_splits option.splits)
next
  case (CallFire now)
  with assms show ?thesis
    by (auto simp: fire_def Let_def chan_send_def ch_cap_def timer_inv_def After_def Equal_def
        split: if_splits)
next
  case CallRecv
  with assms show ?thesis by (cases "ch timer") (auto simp: timer_inv_def)
qed

text \<open>
  Under the invariant the only call that can be parked is a \<^verbatim>\<open>Stop\<close> on a timer whose
  flag is false, at a \<^verbatim>\<open>remove\<close> channel without room.
\<close>

lemma step_parked:
  assumes "step self c (timer, events) = Inl p" and "timer_inv timer"
  shows "c = CallStop \<and> p = ParkedStop timer \<and> \<not> stopped timer \<and> \<not> has_room events"
proof (cases c)
  case (CallReset d)
  with assms show ?thesis by (simp split: prod.splits)
next
  case CallStop
  with assms show ?thesis
    by (auto simp: Stop_def chan_send_def has_room_def split: if_splits sum.splits)
next
  case (CallFire now)
  with assms fire_inv_returns [OF assms(2), of now] show ?thesis by auto
next
  case CallRecv
  with assms show ?thesis by (simp split: prod.splits)
qed

text \<open>With the invariant, and room in the channel while the flag is false, a call completes.\<close>

lemma step_total:
  assumes "timer_inv timer" and "stopped timer \<or> has_room events"
  shows "\<exists>a timer' events'. step self c (timer, events) = Inr (a, timer', events')
    \<and> (stopped timer' \<or> has_room events')"
proof (cases c)
  case (CallReset d)
  with assms show ?thesis by (auto simp: Reset_def)
next
  case CallStop
  with assms show ?thesis by (cases "stopped timer") (auto simp: Stop_stopped Stop_room)
next
  case (CallFire now)
  from fire_inv_returns [OF assms(1), of now] obtain b t' where
    f: "fire now timer = Inr (b, t')" by blast
  with assms(2) have "stopped t' \<or> has_room events"
    by (auto simp: fire_def Let_def split: if_splits option.splits)
  with f CallFire show ?thesis by simp
next
  case CallRecv
  with assms show ?thesis by (auto split: prod.splits)
qed

lemma newSimTimer_inv: "timer_inv (newSimTimer dl)"
  by (simp add: newSimTimer_def timer_inv_def)

subsection \<open>Runs\<close>

lemma exec_Cons_Inr:
  assumes "exec self (c # cs) (timer, events) = Inr (h, s'')"
  obtains a timer' events' h' where
    "step self c (timer, events) = Inr (a, timer', events')"
    "exec self cs (timer', events') = Inr (h', s'')"
    "h = (c, a, timer, timer') # h'"
  using assms by (auto split: sum.splits)

text \<open>
  A run that ends at a parked call is a completed run of the calls before it, with the
  same history, followed by the call that is parked.
\<close>

lemma exec_parked:
  assumes "exec self cs s = Inl (h, p)"
  shows "\<exists>cs1 c cs2 s1. cs = cs1 @ c # cs2 \<and> exec self cs1 s = Inr (h, s1)
    \<and> step self c s1 = Inl p"
  using assms
proof (induction cs arbitrary: s h)
  case Nil
  then show ?case by simp
next
  case (Cons c cs)
  show ?case
  proof (cases "step self c s")
    case (Inl p')
    with Cons.prems have "h = []" and "p' = p" by simp_all
    with Inl have "c # cs = [] @ c # cs \<and> exec self [] s = Inr (h, s) \<and> step self c s = Inl p"
      by simp
    then show ?thesis by blast
  next
    case (Inr r)
    obtain a s' where r: "r = (a, s')" by (cases r)
    from Cons.prems Inr r obtain h' where
      ex: "exec self cs s' = Inl (h', p)" and h: "h = (c, a, fst s, fst s') # h'"
      by (auto split: sum.splits)
    from Cons.IH [OF ex] obtain cs1 c1 cs2 s1 where
      cs: "cs = cs1 @ c1 # cs2" and run: "exec self cs1 s' = Inr (h', s1)"
      and st: "step self c1 s1 = Inl p"
      by blast
    from Inr r run h have "exec self (c # cs1) s = Inr (h, s1)" by simp
    moreover from cs have "c # cs = (c # cs1) @ c1 # cs2" by simp
    ultimately show ?thesis using st by blast
  qed
qed

text \<open>The history of any run is the history of a completed run from the same state.\<close>

lemma history_completed:
  "\<exists>cs1 s1. exec self cs1 s = Inr (history (exec self cs s), s1)"
proof (cases "exec self cs s")
  case (Inl hp)
  obtain h p where "hp = (h, p)" by (cases hp)
  with Inl exec_parked [of self cs s h p] show ?thesis by auto
next
  case (Inr hs)
  obtain h s1 where "hs = (h, s1)" by (cases hs)
  with Inr have "exec self cs s = Inr (history (exec self cs s), s1)" by simp
  then show ?thesis by blast
qed

text \<open>A completed run from a state that keeps the invariant ends in such a state.\<close>

lemma exec_inv:
  assumes "exec self cs (timer, events) = Inr (h, timer', events')" and "timer_inv timer"
  shows "timer_inv timer'"
  using assms
proof (induction cs arbitrary: timer events h)
  case Nil
  then show ?case by simp
next
  case (Cons c cs)
  from Cons.prems(1) obtain a t1 e1 h' where
    st: "step self c (timer, events) = Inr (a, t1, e1)" and
    ex: "exec self cs (t1, e1) = Inr (h', timer', events')"
    by (rule exec_Cons_Inr)
  from step_inv [OF st Cons.prems(2)] have "timer_inv t1" .
  with Cons.IH [OF ex] show ?case .
qed

lemma exec_new_inv:
  assumes "exec self cs (newSimTimer dl, events) = Inr (h, timer', events')"
  shows "timer_inv timer'"
  using exec_inv [OF assms newSimTimer_inv] .

text \<open>
  With the invariant, and room in the \<^verbatim>\<open>remove\<close> channel while the flag is false, every
  run completes.
\<close>

lemma exec_total:
  assumes "timer_inv timer" and "stopped timer \<or> has_room events"
  shows "\<exists>h timer' events'. exec self cs (timer, events) = Inr (h, timer', events')"
  using assms
proof (induction cs arbitrary: timer events)
  case Nil
  then show ?case by simp
next
  case (Cons c cs)
  from step_total [OF Cons.prems, of self c] obtain a t1 e1 where
    st: "step self c (timer, events) = Inr (a, t1, e1)" and
    room: "stopped t1 \<or> has_room e1"
    by blast
  from step_inv [OF st Cons.prems(1)] have "timer_inv t1" .
  from Cons.IH [OF this room] obtain h t2 e2 where
    "exec self cs (t1, e1) = Inr (h, t2, e2)" by blast
  with st show ?case by simp
qed

text \<open>
  From a state that keeps the invariant a run is parked only at a \<^verbatim>\<open>Stop\<close>, on a timer
  whose flag is still false: never at the send of \<^verbatim>\<open>fire\<close>.
\<close>

lemma exec_parked_inv:
  assumes "exec self cs (timer, events) = Inl (h, p)" and "timer_inv timer"
  shows "\<exists>t. p = ParkedStop t \<and> \<not> stopped t \<and> timer_inv t
    \<and> (\<exists>cs1 e1. exec self cs1 (timer, events) = Inr (h, t, e1))"
proof -
  from exec_parked [OF assms(1)] obtain cs1 c cs2 s1 where
    run: "exec self cs1 (timer, events) = Inr (h, s1)" and st: "step self c s1 = Inl p"
    by blast
  obtain t1 e1 where s1: "s1 = (t1, e1)" by (cases s1)
  from run s1 assms(2) have inv: "timer_inv t1" by (auto dest: exec_inv)
  from step_parked [OF st [unfolded s1] inv] have "p = ParkedStop t1" and "\<not> stopped t1"
    by simp_all
  with inv run s1 show ?thesis by blast
qed

text \<open>Once the flag is set, a run sets nothing more: no flip, no delivery, no successful Stop.\<close>

lemma exec_stopped:
  assumes "exec self cs (timer, events) = Inr (h, timer', events')" and "stopped timer"
  shows "stopped timer' \<and> deadline timer' = deadline timer \<and> events' = events
    \<and> filter flips h = [] \<and> filter delivers h = [] \<and> filter stop_true h = []"
  using assms
proof (induction cs arbitrary: timer events h)
  case Nil
  then show ?case by simp
next
  case (Cons c cs)
  from Cons.prems(1) obtain a t1 e1 h' where
    st: "step self c (timer, events) = Inr (a, t1, e1)" and
    ex: "exec self cs (t1, e1) = Inr (h', timer', events')" and
    h: "h = (c, a, timer, t1) # h'"
    by (rule exec_Cons_Inr)
  from step_cases [OF st] Cons.prems(2) have
    s1: "stopped t1" and d1: "deadline t1 = deadline timer" and e1: "e1 = events" and
    fl: "flips (c, a, timer, t1) = (delivers (c, a, timer, t1) \<or> stop_true (c, a, timer, t1))"
    by blast+
  from Cons.prems(2) have nf: "\<not> flips (c, a, timer, t1)" by simp
  with fl have nd: "\<not> delivers (c, a, timer, t1)" and ns: "\<not> stop_true (c, a, timer, t1)"
    by blast+
  from Cons.IH [OF ex s1] d1 e1 have
    "stopped timer' \<and> deadline timer' = deadline timer \<and> events' = events
      \<and> filter flips h' = [] \<and> filter delivers h' = [] \<and> filter stop_true h' = []"
    by simp
  with h nf nd ns show ?case by (simp del: flips.simps)
qed

text \<open>In every run the flag flips at most once, and each flip is a delivery or a successful Stop.\<close>

lemma exec_flips:
  assumes "exec self cs (timer, events) = Inr (h, s')"
  shows "length (filter flips h) \<le> 1
    \<and> filter flips h = filter (\<lambda>e. delivers e \<or> stop_true e) h
    \<and> length (filter delivers h) + length (filter stop_true h) = length (filter flips h)"
  using assms
proof (induction cs arbitrary: timer events h)
  case Nil
  then show ?case by simp
next
  case (Cons c cs)
  from Cons.prems obtain a t1 e1 h' where
    st: "step self c (timer, events) = Inr (a, t1, e1)" and
    ex: "exec self cs (t1, e1) = Inr (h', s')" and
    h: "h = (c, a, timer, t1) # h'"
    by (rule exec_Cons_Inr)
  note sc = step_cases [OF st]
  note IH = Cons.IH [OF ex]
  show ?case
  proof (cases "flips (c, a, timer, t1)")
    case True
    then have "stopped t1" by simp
    with ex have "filter flips h' = [] \<and> filter delivers h' = [] \<and> filter stop_true h' = []"
      by (cases s') (auto dest: exec_stopped)
    with True sc IH h show ?thesis by auto
  next
    case False
    with sc IH h show ?thesis by auto
  qed
qed

text \<open>Every entry of a history is one call made in the state before it.\<close>

lemma exec_entries:
  assumes "exec self cs (timer, events) = Inr (h, s')" and "(c, a, before, after) \<in> set h"
  shows "\<exists>e e'. step self c (before, e) = Inr (a, after, e')"
  using assms
proof (induction cs arbitrary: timer events h)
  case Nil
  then show ?case by simp
next
  case (Cons c0 cs)
  from Cons.prems(1) obtain a0 t1 e1 h' where
    st: "step self c0 (timer, events) = Inr (a0, t1, e1)" and
    ex: "exec self cs (t1, e1) = Inr (h', s')" and
    h: "h = (c0, a0, timer, t1) # h'"
    by (rule exec_Cons_Inr)
  from Cons.prems(2) h consider "(c, a, before, after) = (c0, a0, timer, t1)"
    | "(c, a, before, after) \<in> set h'" by auto
  then show ?case
  proof cases
    case 1
    with st show ?thesis by blast
  next
    case 2
    with Cons.IH [OF ex] show ?thesis .
  qed
qed

text \<open>In a run from a state that keeps the invariant, every call starts and ends in one.\<close>

lemma exec_entries_inv:
  assumes "exec self cs (timer, events) = Inr (h, s')" and "timer_inv timer"
    and "(c, a, before, after) \<in> set h"
  shows "timer_inv before \<and> timer_inv after"
  using assms
proof (induction cs arbitrary: timer events h)
  case Nil
  then show ?case by simp
next
  case (Cons c0 cs)
  from Cons.prems(1) obtain a0 t1 e1 h' where
    st: "step self c0 (timer, events) = Inr (a0, t1, e1)" and
    ex: "exec self cs (t1, e1) = Inr (h', s')" and
    h: "h = (c0, a0, timer, t1) # h'"
    by (rule exec_Cons_Inr)
  from step_inv [OF st Cons.prems(2)] have inv1: "timer_inv t1" .
  from Cons.prems(3) h consider "(c, a, before, after) = (c0, a0, timer, t1)"
    | "(c, a, before, after) \<in> set h'" by auto
  then show ?case
  proof cases
    case 1
    with Cons.prems(2) inv1 show ?thesis by simp
  next
    case 2
    with Cons.IH [OF ex inv1] show ?thesis .
  qed
qed

text \<open>The flag at the end of a run: set at the start, or flipped on the way.\<close>

lemma exec_final_flag:
  assumes "exec self cs (timer, events) = Inr (h, timer', events')"
  shows "stopped timer' = (stopped timer \<or> filter flips h \<noteq> [])"
  using assms
proof (induction cs arbitrary: timer events h)
  case Nil
  then show ?case by simp
next
  case (Cons c cs)
  from Cons.prems obtain a t1 e1 h' where
    st: "step self c (timer, events) = Inr (a, t1, e1)" and
    ex: "exec self cs (t1, e1) = Inr (h', timer', events')" and
    h: "h = (c, a, timer, t1) # h'"
    by (rule exec_Cons_Inr)
  from step_cases [OF st] have mono: "stopped timer \<longrightarrow> stopped t1" by blast
  from Cons.IH [OF ex] h mono show ?case by auto
qed

text \<open>A completed run that holds a call of \<^verbatim>\<open>Stop\<close> ends with the flag set.\<close>

lemma exec_Stop_sets_flag:
  assumes "exec self cs (timer, events) = Inr (h, timer', events')" and "CallStop \<in> set cs"
  shows "stopped timer'"
  using assms
proof (induction cs arbitrary: timer events h)
  case Nil
  then show ?case by simp
next
  case (Cons c cs)
  from Cons.prems(1) obtain a t1 e1 h' where
    st: "step self c (timer, events) = Inr (a, t1, e1)" and
    ex: "exec self cs (t1, e1) = Inr (h', timer', events')"
    by (rule exec_Cons_Inr)
  show ?case
  proof (cases "c = CallStop")
    case True
    with st have "stopped t1"
      by (auto simp: Stop_def split: if_splits option.splits sum.splits)
    with exec_stopped [OF ex] show ?thesis by simp
  next
    case False
    with Cons.prems(2) have "CallStop \<in> set cs" by simp
    with Cons.IH [OF ex] show ?thesis .
  qed
qed

text \<open>With the flag set no call is parked.\<close>

lemma exec_stopped_total:
  assumes "stopped timer"
  shows "\<exists>h timer' events'. exec self cs (timer, events) = Inr (h, timer', events')"
  using assms
proof (induction cs arbitrary: timer events)
  case Nil
  then show ?case by simp
next
  case (Cons c cs)
  have "\<exists>a t1 e1. step self c (timer, events) = Inr (a, t1, e1)"
  proof (cases "c = CallRecv")
    case True
    then show ?thesis by (simp split: prod.splits)
  next
    case False
    with Cons.prems show ?thesis by (simp add: step_stopped)
  qed
  then obtain a t1 e1 where st: "step self c (timer, events) = Inr (a, t1, e1)" by blast
  with step_cases [OF st] Cons.prems have "stopped t1" by blast
  from Cons.IH [OF this] obtain h t2 e2 where "exec self cs (t1, e1) = Inr (h, t2, e2)"
    by blast
  with st show ?case by simp
qed

text \<open>A delivering entry of a history is a call of \<^verbatim>\<open>fire\<close> that returned true.\<close>

lemma delivers_entry:
  assumes "exec self cs (timer, events) = Inr (h, s')" and "(c, a, before, after) \<in> set h"
    and "delivers (c, a, before, after)"
  shows "\<exists>at. c = CallFire at \<and> a = Returned True \<and> fire at before = Inr (True, after)"
proof -
  from exec_entries [OF assms(1,2)] obtain e e' where
    st: "step self c (before, e) = Inr (a, after, e')" by blast
  from assms(3) obtain at where c: "c = CallFire at" and a: "a = Returned True"
    by (cases "(c, a, before, after)" rule: delivers.cases) auto
  from st c a have "fire at before = Inr (True, after)"
    by (auto split: sum.splits)
  with c a show ?thesis by blast
qed

text \<open>
  Successive calls of \<^verbatim>\<open>Reset\<close> on a pending timer, while the deadlines on the way are
  representable.
\<close>

lemma exec_Resets:
  assumes "\<not> stopped timer" and "sums_representable (deadline timer) ds"
  shows "\<exists>h. exec self (map CallReset ds) (timer, events)
        = Inr (h, timer\<lparr>deadline := deadline timer + sum_list (map sint ds)\<rparr>, events)
      \<and> length h = length ds \<and> (\<forall>e\<in>set h. fst (snd e) = Returned True)"
  using assms
proof (induction ds arbitrary: timer)
  case Nil
  then show ?case by simp
next
  case (Cons d ds)
  let ?t1 = "timer\<lparr>deadline := deadline timer + sint d\<rparr>"
  from Cons.prems(2) have rep: "representable (deadline timer + sint d)"
    and rest: "sums_representable (deadline ?t1) ds" by simp_all
  from Cons.prems(1) Add_exact [OF rep]
  have st: "step self (CallReset d) (timer, events) = Inr (Returned True, ?t1, events)"
    by (simp add: Reset_def)
  from Cons.prems(1) have "\<not> stopped ?t1" by simp
  from Cons.IH [OF this rest] obtain h where
    ex: "exec self (map CallReset ds) (?t1, events)
        = Inr (h, ?t1\<lparr>deadline := deadline ?t1 + sum_list (map sint ds)\<rparr>, events)"
    and len: "length h = length ds" and ret: "\<forall>e\<in>set h. fst (snd e) = Returned True"
    by blast
  from st ex len ret show ?case by (simp add: add.assoc)
qed

section \<open>The claims\<close>

text \<open>
  C1. Over any sequence of calls on a timer made by \<^verbatim>\<open>newSimTimer\<close> (calls of the
  three methods, and receives on its channel) the flag goes from false to true at most once;
  the call that sets it is a \<^verbatim>\<open>Stop\<close> that returns true or a \<^verbatim>\<open>fire\<close> that
  returns true, and there is at most one such call. Once the flag is true, every call of
  \<^verbatim>\<open>Reset\<close>, \<^verbatim>\<open>Stop\<close> and \<^verbatim>\<open>fire\<close> returns false and leaves the timer as it
  was. This holds of the calls completed in every run, whether the run reaches its end or
  ends at a parked \<^verbatim>\<open>Stop\<close>; with room in the \<^verbatim>\<open>remove\<close> channel every run reaches
  its end.
\<close>

theorem flag_set_at_most_once:
  "length (filter flips (history (exec self cs (newSimTimer dl, events0)))) \<le> 1
   \<and> filter flips (history (exec self cs (newSimTimer dl, events0)))
       = filter (\<lambda>e. delivers e \<or> stop_true e) (history (exec self cs (newSimTimer dl, events0)))
   \<and> (\<forall>(c, a, before, after)\<in>set (history (exec self cs (newSimTimer dl, events0))).
         stopped before \<longrightarrow>
           stopped after \<and> (c \<noteq> CallRecv \<longrightarrow> a = Returned False \<and> after = before))
   \<and> (has_room events0 \<longrightarrow> (\<exists>h s'. exec self cs (newSimTimer dl, events0) = Inr (h, s')))
   \<and> (stopped timer \<longrightarrow>
        Reset d timer = (False, timer) \<and> Stop self timer events = Inr (False, timer, events)
        \<and> fire now timer = Inr (False, timer))"
proof -
  from history_completed [of self "(newSimTimer dl, events0)" cs] obtain cs1 s1 where
    run: "exec self cs1 (newSimTimer dl, events0) = Inr (history (exec self cs (newSimTimer dl, events0)), s1)"
    by blast
  have entries: "stopped after \<and> (c \<noteq> CallRecv \<longrightarrow> a = Returned False \<and> after = before)"
    if e: "(c, a, before, after) \<in> set (history (exec self cs (newSimTimer dl, events0)))"
      and flag: "stopped before" for c a before after
  proof -
    from exec_entries [OF run e] obtain e1 e2 where
      st: "step self c (before, e1) = Inr (a, after, e2)" by blast
    from step_cases [OF st] flag have "stopped after" by blast
    moreover have "a = Returned False \<and> after = before" if "c \<noteq> CallRecv"
      using step_stopped [OF flag that, of self e1] st by simp
    ultimately show ?thesis by blast
  qed
  have total: "\<exists>h s'. exec self cs (newSimTimer dl, events0) = Inr (h, s')" if "has_room events0"
    using exec_total [OF newSimTimer_inv, of dl events0 self cs] that by auto
  from exec_flips [OF run] have once: "length (filter flips (history (exec self cs (newSimTimer dl, events0)))) \<le> 1"
    and which: "filter flips (history (exec self cs (newSimTimer dl, events0)))
       = filter (\<lambda>e. delivers e \<or> stop_true e) (history (exec self cs (newSimTimer dl, events0)))"
    by blast+
  from entries have after_flag: "\<forall>(c, a, before, after)\<in>set (history (exec self cs (newSimTimer dl, events0))).
         stopped before \<longrightarrow>
           stopped after \<and> (c \<noteq> CallRecv \<longrightarrow> a = Returned False \<and> after = before)"
    by blast
  have set: "stopped timer \<longrightarrow>
        Reset d timer = (False, timer) \<and> Stop self timer events = Inr (False, timer, events)
        \<and> fire now timer = Inr (False, timer)"
    by (simp add: Reset_stopped Stop_stopped fire_stopped)
  from once which after_flag total set show ?thesis by blast
qed

theorem flag_set_at_most_once_witness:
  "has_room \<lparr>remove = [], remove_cap = 1\<rparr>
   \<and> exec 0 [CallFire 12, CallStop, CallReset 5] (newSimTimer 10, \<lparr>remove = [], remove_cap = 1\<rparr>)
     = Inr ([(CallFire 12, Returned True,
          \<lparr>ch = [], stopped = False, deadline = 10\<rparr>,
          \<lparr>ch = [12], stopped = True, deadline = 10\<rparr>),
        (CallStop, Returned False,
          \<lparr>ch = [12], stopped = True, deadline = 10\<rparr>,
          \<lparr>ch = [12], stopped = True, deadline = 10\<rparr>),
        (CallReset 5, Returned False,
          \<lparr>ch = [12], stopped = True, deadline = 10\<rparr>,
          \<lparr>ch = [12], stopped = True, deadline = 10\<rparr>)],
        \<lparr>ch = [12], stopped = True, deadline = 10\<rparr>, \<lparr>remove = [], remove_cap = 1\<rparr>)
   \<and> length (filter flips
       [(CallFire 12, Returned True,
          \<lparr>ch = [], stopped = False, deadline = 10\<rparr>,
          \<lparr>ch = [12], stopped = True, deadline = 10\<rparr>),
        (CallStop, Returned False,
          \<lparr>ch = [12], stopped = True, deadline = 10\<rparr>,
          \<lparr>ch = [12], stopped = True, deadline = 10\<rparr>),
        (CallReset 5, Returned False,
          \<lparr>ch = [12], stopped = True, deadline = 10\<rparr>,
          \<lparr>ch = [12], stopped = True, deadline = 10\<rparr>)]) = 1
   \<and> stopped \<lparr>ch = [12], stopped = True, deadline = 10\<rparr>
   \<and> Reset 5 \<lparr>ch = [12], stopped = True, deadline = 10\<rparr> = (False, \<lparr>ch = [12], stopped = True, deadline = 10\<rparr>)
   \<and> Stop 0 \<lparr>ch = [12], stopped = True, deadline = 10\<rparr> \<lparr>remove = [], remove_cap = 1\<rparr> = Inr (False, \<lparr>ch = [12], stopped = True, deadline = 10\<rparr>, \<lparr>remove = [], remove_cap = 1\<rparr>)
   \<and> fire 30 \<lparr>ch = [12], stopped = True, deadline = 10\<rparr> = Inr (False, \<lparr>ch = [12], stopped = True, deadline = 10\<rparr>)"
proof -
  have run: "exec 0 [CallFire 12, CallStop, CallReset 5] (newSimTimer 10, \<lparr>remove = [], remove_cap = 1\<rparr>)
     = Inr ([(CallFire 12, Returned True,
          \<lparr>ch = [], stopped = False, deadline = 10\<rparr>,
          \<lparr>ch = [12], stopped = True, deadline = 10\<rparr>),
        (CallStop, Returned False,
          \<lparr>ch = [12], stopped = True, deadline = 10\<rparr>,
          \<lparr>ch = [12], stopped = True, deadline = 10\<rparr>),
        (CallReset 5, Returned False,
          \<lparr>ch = [12], stopped = True, deadline = 10\<rparr>,
          \<lparr>ch = [12], stopped = True, deadline = 10\<rparr>)],
        \<lparr>ch = [12], stopped = True, deadline = 10\<rparr>, \<lparr>remove = [], remove_cap = 1\<rparr>)"
    by (simp add: newSimTimer_def Reset_def Stop_def fire_def After_def Equal_def chan_send_def ch_cap_def
        has_room_def Add_def addSec_def wrap64_def sec_def nsec_def representable_def
        signed_divide_int_def signed_modulo_int_def)
  from flag_set_at_most_once
    [of 0 "[CallFire 12, CallStop, CallReset 5]" 10 "\<lparr>remove = [], remove_cap = 1\<rparr>" "\<lparr>ch = [12], stopped = True, deadline = 10\<rparr>" 5 "\<lparr>remove = [], remove_cap = 1\<rparr>" 30]
    run
  show ?thesis by (simp add: has_room_def)
qed

text \<open>
  C2, as the code has it. \<^verbatim>\<open>Stop\<close> and \<^verbatim>\<open>fire\<close> hold the timer's mutex from entry
  to return, so every interleaving of calls on one timer is a sequence of them. A delivery
  by \<^verbatim>\<open>fire\<close> and a true from \<^verbatim>\<open>Stop\<close> never occur both. When every call returns
  and \<^verbatim>\<open>Stop\<close> is called, exactly one of the two outcomes occurs: some \<^verbatim>\<open>Stop\<close>
  returns true and no \<^verbatim>\<open>fire\<close> delivers, or some \<^verbatim>\<open>fire\<close> delivers and every
  \<^verbatim>\<open>Stop\<close> returns false. Every call returns when the \<^verbatim>\<open>remove\<close> channel takes the
  message of \<^verbatim>\<open>Stop\<close>. When it does not, the run ends at a \<^verbatim>\<open>Stop\<close> parked on a timer
  whose flag is false, and neither outcome has occurred.
\<close>

theorem stop_or_fire_at_most_one:
  "\<not> ((\<exists>e\<in>set (history (exec self cs (newSimTimer dl, events0))). delivers e)
        \<and> (\<exists>e\<in>set (history (exec self cs (newSimTimer dl, events0))). stop_true e))
   \<and> (CallStop \<in> set cs \<and> exec self cs (newSimTimer dl, events0) = Inr (h, s') \<longrightarrow>
        (((\<exists>e\<in>set h. stop_true e) \<and> (\<forall>e\<in>set h. \<not> delivers e))
          \<noteq> ((\<exists>e\<in>set h. delivers e) \<and> (\<forall>e\<in>set h. \<not> stop_true e))))
   \<and> (has_room events0 \<longrightarrow> (\<exists>h s'. exec self cs (newSimTimer dl, events0) = Inr (h, s')))
   \<and> (exec self cs (newSimTimer dl, events0) = Inl (h, p) \<longrightarrow>
        (\<exists>t. p = ParkedStop t \<and> \<not> stopped t)
        \<and> (\<forall>e\<in>set h. \<not> delivers e \<and> \<not> stop_true e))"
proof -
  have count: "length (filter delivers k) + length (filter stop_true k) \<le> 1"
    if "exec self cs1 (newSimTimer dl, events0) = Inr (k, s1)" for cs1 k s1
    using exec_flips [OF that] by linarith
  have never_both: "\<not> ((\<exists>e\<in>set k. delivers e) \<and> (\<exists>e\<in>set k. stop_true e))"
    if run: "exec self cs1 (newSimTimer dl, events0) = Inr (k, s1)" for cs1 k s1
  proof
    assume "(\<exists>e\<in>set k. delivers e) \<and> (\<exists>e\<in>set k. stop_true e)"
    then have "filter delivers k \<noteq> []" and "filter stop_true k \<noteq> []"
      by (simp_all add: filter_empty_conv)
    then have "0 < length (filter delivers k)" and "0 < length (filter stop_true k)"
      by simp_all
    with count [OF run] show False by linarith
  qed
  from history_completed [of self "(newSimTimer dl, events0)" cs] obtain cs1 s1 where
    "exec self cs1 (newSimTimer dl, events0) = Inr (history (exec self cs (newSimTimer dl, events0)), s1)"
    by blast
  from never_both [OF this]
  have both: "\<not> ((\<exists>e\<in>set (history (exec self cs (newSimTimer dl, events0))). delivers e)
        \<and> (\<exists>e\<in>set (history (exec self cs (newSimTimer dl, events0))). stop_true e))" .
  have one: "((\<exists>e\<in>set h. stop_true e) \<and> (\<forall>e\<in>set h. \<not> delivers e))
          \<noteq> ((\<exists>e\<in>set h. delivers e) \<and> (\<forall>e\<in>set h. \<not> stop_true e))"
    if stop: "CallStop \<in> set cs" and run: "exec self cs (newSimTimer dl, events0) = Inr (h, s')"
  proof -
    obtain timer' events' where s': "s' = (timer', events')" by (cases s')
    from exec_Stop_sets_flag [OF run [unfolded s'] stop] have "stopped timer'" .
    with exec_final_flag [OF run [unfolded s']] have "filter flips h \<noteq> []"
      by (simp add: newSimTimer_def)
    then have "0 < length (filter flips h)" by simp
    with exec_flips [OF run]
    have "length (filter delivers h) + length (filter stop_true h) = 1"
      by linarith
    then have "(filter delivers h \<noteq> []) \<noteq> (filter stop_true h \<noteq> [])"
      by (cases "filter delivers h"; cases "filter stop_true h") simp_all
    then have "(\<exists>e\<in>set h. delivers e) \<noteq> (\<exists>e\<in>set h. stop_true e)"
      by (simp add: filter_empty_conv)
    then show ?thesis by blast
  qed
  have total: "\<exists>h s'. exec self cs (newSimTimer dl, events0) = Inr (h, s')" if "has_room events0"
    using exec_total [OF newSimTimer_inv, of dl events0 self cs] that by auto
  have parked: "(\<exists>t. p = ParkedStop t \<and> \<not> stopped t)
        \<and> (\<forall>e\<in>set h. \<not> delivers e \<and> \<not> stop_true e)"
    if "exec self cs (newSimTimer dl, events0) = Inl (h, p)"
  proof -
    from exec_parked_inv [OF that newSimTimer_inv] obtain t cs1 e1 where
      p: "p = ParkedStop t" and live: "\<not> stopped t"
      and run: "exec self cs1 (newSimTimer dl, events0) = Inr (h, t, e1)"
      by blast
    from exec_final_flag [OF run] live have "filter flips h = []" by simp
    with exec_flips [OF run] have "filter (\<lambda>e. delivers e \<or> stop_true e) h = []"
      by simp
    then have "\<forall>e\<in>set h. \<not> delivers e \<and> \<not> stop_true e"
      by (simp add: filter_empty_conv)
    with p live show ?thesis by blast
  qed
  from both one total parked show ?thesis by blast
qed

theorem stop_or_fire_at_most_one_witness:
  "CallStop \<in> set [CallFire 12, CallStop]
   \<and> has_room \<lparr>remove = [], remove_cap = 1\<rparr>
   \<and> exec 0 [CallFire 12, CallStop] (newSimTimer 10, \<lparr>remove = [], remove_cap = 1\<rparr>)
     = Inr ([(CallFire 12, Returned True,
          \<lparr>ch = [], stopped = False, deadline = 10\<rparr>,
          \<lparr>ch = [12], stopped = True, deadline = 10\<rparr>),
        (CallStop, Returned False,
          \<lparr>ch = [12], stopped = True, deadline = 10\<rparr>,
          \<lparr>ch = [12], stopped = True, deadline = 10\<rparr>)],
        \<lparr>ch = [12], stopped = True, deadline = 10\<rparr>, \<lparr>remove = [], remove_cap = 1\<rparr>)
   \<and> CallStop \<in> set [CallStop, CallFire 12]
   \<and> exec 0 [CallStop, CallFire 12] (newSimTimer 10, \<lparr>remove = [], remove_cap = 1\<rparr>)
     = Inr ([(CallStop, Returned True,
          \<lparr>ch = [], stopped = False, deadline = 10\<rparr>,
          \<lparr>ch = [], stopped = True, deadline = 10\<rparr>),
        (CallFire 12, Returned False,
          \<lparr>ch = [], stopped = True, deadline = 10\<rparr>,
          \<lparr>ch = [], stopped = True, deadline = 10\<rparr>)],
        \<lparr>ch = [], stopped = True, deadline = 10\<rparr>, \<lparr>remove = [0], remove_cap = 1\<rparr>)
   \<and> filter stop_true
       [(CallFire 12, Returned True,
          \<lparr>ch = [], stopped = False, deadline = 10\<rparr>,
          \<lparr>ch = [12], stopped = True, deadline = 10\<rparr>),
        (CallStop, Returned False,
          \<lparr>ch = [12], stopped = True, deadline = 10\<rparr>,
          \<lparr>ch = [12], stopped = True, deadline = 10\<rparr>)] = []
   \<and> filter delivers
       [(CallStop, Returned True,
          \<lparr>ch = [], stopped = False, deadline = 10\<rparr>,
          \<lparr>ch = [], stopped = True, deadline = 10\<rparr>),
        (CallFire 12, Returned False,
          \<lparr>ch = [], stopped = True, deadline = 10\<rparr>,
          \<lparr>ch = [], stopped = True, deadline = 10\<rparr>)] = []"
proof -
  have runa: "exec 0 [CallFire 12, CallStop] (newSimTimer 10, \<lparr>remove = [], remove_cap = 1\<rparr>)
     = Inr ([(CallFire 12, Returned True,
          \<lparr>ch = [], stopped = False, deadline = 10\<rparr>,
          \<lparr>ch = [12], stopped = True, deadline = 10\<rparr>),
        (CallStop, Returned False,
          \<lparr>ch = [12], stopped = True, deadline = 10\<rparr>,
          \<lparr>ch = [12], stopped = True, deadline = 10\<rparr>)],
        \<lparr>ch = [12], stopped = True, deadline = 10\<rparr>, \<lparr>remove = [], remove_cap = 1\<rparr>)"
    by (simp add: newSimTimer_def Reset_def Stop_def fire_def After_def Equal_def chan_send_def ch_cap_def
        has_room_def Add_def addSec_def wrap64_def sec_def nsec_def representable_def
        signed_divide_int_def signed_modulo_int_def)
  have runb: "exec 0 [CallStop, CallFire 12] (newSimTimer 10, \<lparr>remove = [], remove_cap = 1\<rparr>)
     = Inr ([(CallStop, Returned True,
          \<lparr>ch = [], stopped = False, deadline = 10\<rparr>,
          \<lparr>ch = [], stopped = True, deadline = 10\<rparr>),
        (CallFire 12, Returned False,
          \<lparr>ch = [], stopped = True, deadline = 10\<rparr>,
          \<lparr>ch = [], stopped = True, deadline = 10\<rparr>)],
        \<lparr>ch = [], stopped = True, deadline = 10\<rparr>, \<lparr>remove = [0], remove_cap = 1\<rparr>)"
    by (simp add: newSimTimer_def Reset_def Stop_def fire_def After_def Equal_def chan_send_def ch_cap_def
        has_room_def Add_def addSec_def wrap64_def sec_def nsec_def representable_def
        signed_divide_int_def signed_modulo_int_def)
  from stop_or_fire_at_most_one
      [of 0 "[CallFire 12, CallStop]" 10 "\<lparr>remove = [], remove_cap = 1\<rparr>"
        "[(CallFire 12, Returned True,
          \<lparr>ch = [], stopped = False, deadline = 10\<rparr>,
          \<lparr>ch = [12], stopped = True, deadline = 10\<rparr>),
        (CallStop, Returned False,
          \<lparr>ch = [12], stopped = True, deadline = 10\<rparr>,
          \<lparr>ch = [12], stopped = True, deadline = 10\<rparr>)]"
        "(\<lparr>ch = [12], stopped = True, deadline = 10\<rparr>, \<lparr>remove = [], remove_cap = 1\<rparr>)"]
    stop_or_fire_at_most_one
      [of 0 "[CallStop, CallFire 12]" 10 "\<lparr>remove = [], remove_cap = 1\<rparr>"
        "[(CallStop, Returned True,
          \<lparr>ch = [], stopped = False, deadline = 10\<rparr>,
          \<lparr>ch = [], stopped = True, deadline = 10\<rparr>),
        (CallFire 12, Returned False,
          \<lparr>ch = [], stopped = True, deadline = 10\<rparr>,
          \<lparr>ch = [], stopped = True, deadline = 10\<rparr>)]"
        "(\<lparr>ch = [], stopped = True, deadline = 10\<rparr>, \<lparr>remove = [0], remove_cap = 1\<rparr>)"]
    runa runb
  show ?thesis by (simp add: has_room_def)
qed

text \<open>
  C2 as stated fails: with a \<^verbatim>\<open>remove\<close> channel that takes no message, \<^verbatim>\<open>Stop\<close>
  followed by a \<^verbatim>\<open>fire\<close> past the deadline ends at the parked \<^verbatim>\<open>Stop\<close>. No call
  has completed: no \<^verbatim>\<open>Stop\<close> has returned true and no \<^verbatim>\<open>fire\<close> has delivered.
\<close>

theorem stop_or_fire_exactly_one_counterexample:
  "CallStop \<in> set [CallStop, CallFire 12]
   \<and> exec 0 [CallStop, CallFire 12] (newSimTimer 10, \<lparr>remove = [], remove_cap = 0\<rparr>)
       = Inl ([], ParkedStop \<lparr>ch = [], stopped = False, deadline = 10\<rparr>)
   \<and> \<not> (\<exists>h s'. exec 0 [CallStop, CallFire 12] (newSimTimer 10, \<lparr>remove = [], remove_cap = 0\<rparr>) = Inr (h, s'))"
  by (simp add: newSimTimer_def Stop_def chan_send_def)

text \<open>
  C3. On a timer not yet fired or stopped, \<^verbatim>\<open>fire(at)\<close> returns false and delivers
  nothing when \<open>at\<close> is strictly before the deadline; when \<open>at\<close> is at or past the
  deadline it sets the flag, places \<open>at\<close> into the delivery slot and returns true. The
  timer is any state that calls can bring a timer of \<^verbatim>\<open>newSimTimer\<close> to; its slot
  is empty then, so the send has room.
\<close>

theorem fire_on_pending_timer:
  assumes "exec self cs (newSimTimer dl, events0) = Inr (h, timer, events)"
    and "\<not> stopped timer"
  shows "ch timer = []
    \<and> (now < deadline timer \<longrightarrow> fire now timer = Inr (False, timer))
    \<and> (deadline timer \<le> now \<longrightarrow>
         fire now timer = Inr (True, timer\<lparr>stopped := True, ch := [now]\<rparr>))"
proof -
  from exec_new_inv [OF assms(1)] assms(2) have empty: "ch timer = []"
    by (simp add: timer_inv_def)
  with assms(2) show ?thesis
    by (simp add: fire_ready fire_early)
qed

theorem fire_on_pending_timer_witness:
  "exec 0 [CallReset 5, CallFire 12, CallRecv] (newSimTimer 10, \<lparr>remove = [], remove_cap = 1\<rparr>)
     = Inr ([(CallReset 5, Returned True,
          \<lparr>ch = [], stopped = False, deadline = 10\<rparr>,
          \<lparr>ch = [], stopped = False, deadline = 15\<rparr>),
        (CallFire 12, Returned False,
          \<lparr>ch = [], stopped = False, deadline = 15\<rparr>,
          \<lparr>ch = [], stopped = False, deadline = 15\<rparr>),
        (CallRecv, Received None,
          \<lparr>ch = [], stopped = False, deadline = 15\<rparr>,
          \<lparr>ch = [], stopped = False, deadline = 15\<rparr>)],
        \<lparr>ch = [], stopped = False, deadline = 15\<rparr>, \<lparr>remove = [], remove_cap = 1\<rparr>)
   \<and> fire 14 \<lparr>ch = [], stopped = False, deadline = 15\<rparr> = Inr (False, \<lparr>ch = [], stopped = False, deadline = 15\<rparr>)
   \<and> fire 15 \<lparr>ch = [], stopped = False, deadline = 15\<rparr> = Inr (True, \<lparr>ch = [15], stopped = True, deadline = 15\<rparr>)
   \<and> fire 16 \<lparr>ch = [], stopped = False, deadline = 15\<rparr> = Inr (True, \<lparr>ch = [16], stopped = True, deadline = 15\<rparr>)"
proof -
  have run: "exec 0 [CallReset 5, CallFire 12, CallRecv] (newSimTimer 10, \<lparr>remove = [], remove_cap = 1\<rparr>)
     = Inr ([(CallReset 5, Returned True,
          \<lparr>ch = [], stopped = False, deadline = 10\<rparr>,
          \<lparr>ch = [], stopped = False, deadline = 15\<rparr>),
        (CallFire 12, Returned False,
          \<lparr>ch = [], stopped = False, deadline = 15\<rparr>,
          \<lparr>ch = [], stopped = False, deadline = 15\<rparr>),
        (CallRecv, Received None,
          \<lparr>ch = [], stopped = False, deadline = 15\<rparr>,
          \<lparr>ch = [], stopped = False, deadline = 15\<rparr>)],
        \<lparr>ch = [], stopped = False, deadline = 15\<rparr>, \<lparr>remove = [], remove_cap = 1\<rparr>)"
    by (simp add: newSimTimer_def Reset_def Stop_def fire_def After_def Equal_def chan_send_def ch_cap_def
        has_room_def Add_def addSec_def wrap64_def sec_def nsec_def representable_def
        signed_divide_int_def signed_modulo_int_def)
  have live: "\<not> stopped \<lparr>ch = [], stopped = False, deadline = 15\<rparr>" by simp
  from fire_on_pending_timer [OF run live, of 14] fire_on_pending_timer [OF run live, of 15]
    fire_on_pending_timer [OF run live, of 16] run
  show ?thesis by simp
qed

text \<open>
  C4, as the code has it. On a timer not yet fired or stopped, \<^verbatim>\<open>Reset(delta)\<close>
  returns true and makes the deadline \<^verbatim>\<open>deadline.Add(delta)\<close>: the method reads no
  clock, only the deadline it replaces. The new deadline is the current deadline plus
  \<open>delta\<close> whenever that instant is representable, and successive calls move the deadline
  by the sum of their deltas as long as every deadline on the way is representable.
\<close>

theorem Reset_adds_to_deadline:
  assumes "\<not> stopped timer"
  shows "Reset d timer = (True, timer\<lparr>deadline := Add (deadline timer) d\<rparr>)
    \<and> (representable (deadline timer + sint d) \<longrightarrow>
         Reset d timer = (True, timer\<lparr>deadline := deadline timer + sint d\<rparr>))
    \<and> (sums_representable (deadline timer) ds \<longrightarrow>
         (\<exists>h. exec self (map CallReset ds) (timer, events)
                = Inr (h, timer\<lparr>deadline := deadline timer + sum_list (map sint ds)\<rparr>, events)
             \<and> length h = length ds \<and> (\<forall>e\<in>set h. fst (snd e) = Returned True)))"
proof -
  have "Reset d timer = (True, timer\<lparr>deadline := deadline timer + sint d\<rparr>)"
    if "representable (deadline timer + sint d)"
    using assms Add_exact [OF that] by (simp add: Reset_def)
  moreover have "\<exists>h. exec self (map CallReset ds) (timer, events)
                = Inr (h, timer\<lparr>deadline := deadline timer + sum_list (map sint ds)\<rparr>, events)
             \<and> length h = length ds \<and> (\<forall>e\<in>set h. fst (snd e) = Returned True)"
    if "sums_representable (deadline timer) ds"
    using exec_Resets [OF assms that] .
  moreover from assms
  have "Reset d timer = (True, timer\<lparr>deadline := Add (deadline timer) d\<rparr>)"
    by (simp add: Reset_def)
  ultimately show ?thesis by blast
qed

theorem Reset_adds_to_deadline_witness:
  "\<not> stopped \<lparr>ch = [], stopped = False, deadline = 10\<rparr>
   \<and> representable (10 + sint (5 :: Duration))
   \<and> sums_representable 10 [5, - 3, 10]
   \<and> Reset 5 \<lparr>ch = [], stopped = False, deadline = 10\<rparr> = (True, \<lparr>ch = [], stopped = False, deadline = 15\<rparr>)
   \<and> (\<exists>h. exec 0 [CallReset 5, CallReset (- 3), CallReset 10] (\<lparr>ch = [], stopped = False, deadline = 10\<rparr>, \<lparr>remove = [], remove_cap = 1\<rparr>)
             = Inr (h, \<lparr>ch = [], stopped = False, deadline = 22\<rparr>, \<lparr>remove = [], remove_cap = 1\<rparr>)
          \<and> length h = 3)"
proof -
  have live: "\<not> stopped \<lparr>ch = [], stopped = False, deadline = 10\<rparr>" by simp
  have one: "representable (10 + sint (5 :: Duration))"
    by (simp add: representable_def sec_def)
  have all: "sums_representable 10 [5, - 3, 10]"
    by (simp add: representable_def sec_def)
  from Reset_adds_to_deadline [OF live, of 5 "[5, - 3, 10]" 0 "\<lparr>remove = [], remove_cap = 1\<rparr>"] one all
  show ?thesis by (auto simp del: exec.simps)
qed

text \<open>
  C4 as stated fails at the end of the range: at the deadline
  \<^verbatim>\<open>time.Unix(9223371974719179006, 0)\<close>, one second before the last second an
  instant can hold, \<^verbatim>\<open>Reset\<close> of two seconds returns true and moves the deadline by one
  second.
\<close>

theorem Reset_adds_to_deadline_counterexample:
  "representable 9223372036854775806000000000
   \<and> sint (2000000000 :: Duration) = 2000000000
   \<and> Reset 2000000000 \<lparr>ch = [], stopped = False, deadline = 9223372036854775806000000000\<rparr>
       = (True, \<lparr>ch = [], stopped = False, deadline = 9223372036854775806000000000 + 1000000000\<rparr>)
   \<and> Reset 2000000000 \<lparr>ch = [], stopped = False, deadline = 9223372036854775806000000000\<rparr>
       \<noteq> (True, \<lparr>ch = [], stopped = False, deadline = 9223372036854775806000000000 + 2000000000\<rparr>)"
  by (simp add: Reset_def Add_def addSec_def wrap64_def sec_def nsec_def representable_def
      signed_divide_int_def signed_modulo_int_def)

text \<open>
  C5, as the code has it. \<^verbatim>\<open>Stop\<close> returns false with no effect on a timer already
  fired or stopped. Otherwise it sends the timer on the registry's \<^verbatim>\<open>remove\<close> channel:
  when the channel takes the message it sets the flag and returns true; while the channel
  does not, it stays parked at the send with the timer unchanged. In every case the
  delivery slot is as before the call: after a \<^verbatim>\<open>fire\<close> that delivered, \<^verbatim>\<open>Stop\<close>
  returns false and a receive still finds the value.
\<close>

theorem Stop_contract:
  "(stopped timer \<longrightarrow> Stop self timer events = Inr (False, timer, events))
   \<and> (\<not> stopped timer \<and> has_room events \<longrightarrow>
        Stop self timer events
          = Inr (True, timer\<lparr>stopped := True\<rparr>, events\<lparr>remove := remove events @ [self]\<rparr>))
   \<and> (\<not> stopped timer \<and> \<not> has_room events \<longrightarrow> Stop self timer events = Inl timer)
   \<and> (case Stop self timer events of
         Inl t \<Rightarrow> ch t = ch timer
       | Inr (b, t, e) \<Rightarrow> ch t = ch timer)
   \<and> (fire now timer = Inr (True, timer') \<longrightarrow>
        ch timer' = [now]
        \<and> Stop self timer' events = Inr (False, timer', events)
        \<and> (\<exists>h. exec self [CallStop, CallRecv] (timer', events)
                  = Inr (h, timer'\<lparr>ch := []\<rparr>, events)
               \<and> map (\<lambda>e. fst (snd e)) h = [Returned False, Received (Some now)]))"
proof -
  have slot: "case Stop self timer events of
         Inl t \<Rightarrow> ch t = ch timer
       | Inr (b, t, e) \<Rightarrow> ch t = ch timer"
    by (simp add: Stop_def chan_send_def)
  have later: "ch timer' = [now]
        \<and> Stop self timer' events = Inr (False, timer', events)
        \<and> (\<exists>h. exec self [CallStop, CallRecv] (timer', events)
                  = Inr (h, timer'\<lparr>ch := []\<rparr>, events)
               \<and> map (\<lambda>e. fst (snd e)) h = [Returned False, Received (Some now)])"
    if "fire now timer = Inr (True, timer')"
  proof -
    from fire_True [OF that] have "stopped timer'" and "ch timer' = [now]" by simp_all
    then show ?thesis by (simp add: Stop_def)
  qed
  from slot later show ?thesis
    by (simp add: Stop_stopped Stop_room Stop_parks)
qed

theorem Stop_contract_witness:
  "has_room \<lparr>remove = [3], remove_cap = 2\<rparr>
   \<and> Stop 7 \<lparr>ch = [], stopped = False, deadline = 10\<rparr> \<lparr>remove = [3], remove_cap = 2\<rparr> = Inr (True, \<lparr>ch = [], stopped = True, deadline = 10\<rparr>, \<lparr>remove = [3, 7], remove_cap = 2\<rparr>)
   \<and> \<not> has_room \<lparr>remove = [3], remove_cap = 1\<rparr>
   \<and> Stop 7 \<lparr>ch = [], stopped = False, deadline = 10\<rparr> \<lparr>remove = [3], remove_cap = 1\<rparr> = Inl \<lparr>ch = [], stopped = False, deadline = 10\<rparr>
   \<and> fire 12 \<lparr>ch = [], stopped = False, deadline = 10\<rparr> = Inr (True, \<lparr>ch = [12], stopped = True, deadline = 10\<rparr>)
   \<and> Stop 7 \<lparr>ch = [12], stopped = True, deadline = 10\<rparr> \<lparr>remove = [3], remove_cap = 1\<rparr> = Inr (False, \<lparr>ch = [12], stopped = True, deadline = 10\<rparr>, \<lparr>remove = [3], remove_cap = 1\<rparr>)
   \<and> (\<exists>h. exec 7 [CallStop, CallRecv] (\<lparr>ch = [12], stopped = True, deadline = 10\<rparr>, \<lparr>remove = [3], remove_cap = 1\<rparr>)
             = Inr (h, \<lparr>ch = [], stopped = True, deadline = 10\<rparr>, \<lparr>remove = [3], remove_cap = 1\<rparr>)
          \<and> map (\<lambda>e. fst (snd e)) h = [Returned False, Received (Some 12)])"
proof -
  have delivered: "fire 12 \<lparr>ch = [], stopped = False, deadline = 10\<rparr> = Inr (True, \<lparr>ch = [12], stopped = True, deadline = 10\<rparr>)"
    by (simp add: fire_def After_def Equal_def chan_send_def ch_cap_def)
  have room: "has_room \<lparr>remove = [3], remove_cap = 2\<rparr>" by (simp add: has_room_def)
  have full: "\<not> has_room \<lparr>remove = [3], remove_cap = 1\<rparr>" by (simp add: has_room_def)
  from Stop_contract [of "\<lparr>ch = [], stopped = False, deadline = 10\<rparr>" 7 "\<lparr>remove = [3], remove_cap = 2\<rparr>" 12 "\<lparr>ch = [12], stopped = True, deadline = 10\<rparr>"]
    Stop_contract [of "\<lparr>ch = [], stopped = False, deadline = 10\<rparr>" 7 "\<lparr>remove = [3], remove_cap = 1\<rparr>" 12 "\<lparr>ch = [12], stopped = True, deadline = 10\<rparr>"]
    Stop_contract [of "\<lparr>ch = [12], stopped = True, deadline = 10\<rparr>" 7 "\<lparr>remove = [3], remove_cap = 1\<rparr>" 12 "\<lparr>ch = [12], stopped = True, deadline = 10\<rparr>"]
    delivered room full
  show ?thesis by simp
qed

text \<open>
  C5 as stated fails: on a timer not yet fired or stopped, with a \<^verbatim>\<open>remove\<close> channel
  that is full, \<^verbatim>\<open>Stop\<close> does not return true; it is parked with the flag still false.
\<close>

theorem Stop_contract_counterexample:
  "\<not> stopped \<lparr>ch = [], stopped = False, deadline = 10\<rparr>
   \<and> Stop 7 \<lparr>ch = [], stopped = False, deadline = 10\<rparr> \<lparr>remove = [3], remove_cap = 1\<rparr> = Inl \<lparr>ch = [], stopped = False, deadline = 10\<rparr>
   \<and> Stop 7 \<lparr>ch = [], stopped = False, deadline = 10\<rparr> \<lparr>remove = [3], remove_cap = 1\<rparr>
       \<noteq> Inr (True, \<lparr>ch = [], stopped = True, deadline = 10\<rparr>, \<lparr>remove = [3, 7], remove_cap = 1\<rparr>)"
  by (simp add: Stop_def chan_send_def)

text \<open>
  C6. Every value placed in the delivery slot is the time given to the call of
  \<^verbatim>\<open>fire\<close> that placed it; it is at or after the deadline the timer had at that
  call, and equals that deadline exactly when the time given is the deadline. The deadline
  does not change afterwards, so whatever is in the slot of a timer is at or after its
  deadline.
\<close>

theorem delivered_time_not_before_deadline:
  "(fire now timer = Inr (True, timer') \<longrightarrow>
      ch timer' = [now] \<and> deadline timer' = deadline timer \<and> deadline timer \<le> now
      \<and> (\<forall>v\<in>set (ch timer'). (v = deadline timer') = (now = deadline timer)))
   \<and> (exec self cs (newSimTimer dl, events0) = Inr (h, timer2, events) \<longrightarrow>
        (\<forall>v\<in>set (ch timer2). deadline timer2 \<le> v)
        \<and> (\<forall>(c, a, before, after)\<in>set h. delivers (c, a, before, after) \<longrightarrow>
             (\<exists>at. c = CallFire at \<and> ch after = [at] \<and> deadline before \<le> at
                \<and> deadline after = deadline before)))"
proof -
  have one: "ch timer' = [now] \<and> deadline timer' = deadline timer \<and> deadline timer \<le> now
      \<and> (\<forall>v\<in>set (ch timer'). (v = deadline timer') = (now = deadline timer))"
    if "fire now timer = Inr (True, timer')"
    using fire_True [OF that] by simp
  have slot: "\<forall>v\<in>set (ch timer2). deadline timer2 \<le> v"
    if "exec self cs (newSimTimer dl, events0) = Inr (h, timer2, events)"
    using exec_new_inv [OF that] by (simp add: timer_inv_def list_all_iff)
  have sent: "\<exists>at. c = CallFire at \<and> ch after = [at] \<and> deadline before \<le> at
                \<and> deadline after = deadline before"
    if run: "exec self cs (newSimTimer dl, events0) = Inr (h, timer2, events)"
      and e: "(c, a, before, after) \<in> set h" and d: "delivers (c, a, before, after)"
    for c a before after
  proof -
    from delivers_entry [OF run e d] obtain at where
      c: "c = CallFire at" and f: "fire at before = Inr (True, after)" by blast
    from fire_True [OF f] c show ?thesis by simp
  qed
  from one slot sent show ?thesis by blast
qed

theorem delivered_time_not_before_deadline_witness:
  "fire 12 \<lparr>ch = [], stopped = False, deadline = 10\<rparr> = Inr (True, \<lparr>ch = [12], stopped = True, deadline = 10\<rparr>)
   \<and> fire 10 \<lparr>ch = [], stopped = False, deadline = 10\<rparr> = Inr (True, \<lparr>ch = [10], stopped = True, deadline = 10\<rparr>)
   \<and> exec 0 [CallReset 1, CallFire 12] (newSimTimer 10, \<lparr>remove = [], remove_cap = 1\<rparr>)
     = Inr ([(CallReset 1, Returned True,
          \<lparr>ch = [], stopped = False, deadline = 10\<rparr>,
          \<lparr>ch = [], stopped = False, deadline = 11\<rparr>),
        (CallFire 12, Returned True,
          \<lparr>ch = [], stopped = False, deadline = 11\<rparr>,
          \<lparr>ch = [12], stopped = True, deadline = 11\<rparr>)],
        \<lparr>ch = [12], stopped = True, deadline = 11\<rparr>, \<lparr>remove = [], remove_cap = 1\<rparr>)"
proof -
  have late: "fire 12 \<lparr>ch = [], stopped = False, deadline = 10\<rparr> = Inr (True, \<lparr>ch = [12], stopped = True, deadline = 10\<rparr>)"
    by (simp add: fire_def After_def Equal_def chan_send_def ch_cap_def)
  have exact: "fire 10 \<lparr>ch = [], stopped = False, deadline = 10\<rparr> = Inr (True, \<lparr>ch = [10], stopped = True, deadline = 10\<rparr>)"
    by (simp add: fire_def After_def Equal_def chan_send_def ch_cap_def)
  have run: "exec 0 [CallReset 1, CallFire 12] (newSimTimer 10, \<lparr>remove = [], remove_cap = 1\<rparr>)
     = Inr ([(CallReset 1, Returned True,
          \<lparr>ch = [], stopped = False, deadline = 10\<rparr>,
          \<lparr>ch = [], stopped = False, deadline = 11\<rparr>),
        (CallFire 12, Returned True,
          \<lparr>ch = [], stopped = False, deadline = 11\<rparr>,
          \<lparr>ch = [12], stopped = True, deadline = 11\<rparr>)],
        \<lparr>ch = [12], stopped = True, deadline = 11\<rparr>, \<lparr>remove = [], remove_cap = 1\<rparr>)"
    by (simp add: newSimTimer_def Reset_def Stop_def fire_def After_def Equal_def chan_send_def ch_cap_def
        has_room_def Add_def addSec_def wrap64_def sec_def nsec_def representable_def
        signed_divide_int_def signed_modulo_int_def)
  from delivered_time_not_before_deadline
    [of 12 "\<lparr>ch = [], stopped = False, deadline = 10\<rparr>" "\<lparr>ch = [12], stopped = True, deadline = 10\<rparr>" 0 "[CallReset 1, CallFire 12]" 10 "\<lparr>remove = [], remove_cap = 1\<rparr>"
      "[(CallReset 1, Returned True,
          \<lparr>ch = [], stopped = False, deadline = 10\<rparr>,
          \<lparr>ch = [], stopped = False, deadline = 11\<rparr>),
        (CallFire 12, Returned True,
          \<lparr>ch = [], stopped = False, deadline = 11\<rparr>,
          \<lparr>ch = [12], stopped = True, deadline = 11\<rparr>)]"
      "\<lparr>ch = [12], stopped = True, deadline = 11\<rparr>" "\<lparr>remove = [], remove_cap = 1\<rparr>"]
    late exact run
  show ?thesis by simp
qed

text \<open>
  C7. Over every sequence of calls on a timer made by \<^verbatim>\<open>newSimTimer\<close>, at most one
  call of \<^verbatim>\<open>fire\<close> sends a value; the slot holds at most one value at every moment and
  is empty when that send is made, so no call of \<^verbatim>\<open>fire\<close> is parked at its send: no run
  ends there, and \<^verbatim>\<open>fire\<close> returns in the state a run ends in. With room in the
  \<^verbatim>\<open>remove\<close> channel every run reaches its end.
\<close>

theorem slot_gets_at_most_one_value:
  "(\<forall>h t. exec self cs (newSimTimer dl, events0) \<noteq> Inl (h, ParkedFire t))
   \<and> length (filter delivers (history (exec self cs (newSimTimer dl, events0)))) \<le> 1
   \<and> (\<forall>(c, a, before, after)\<in>set (history (exec self cs (newSimTimer dl, events0))).
        length (ch before) \<le> 1 \<and> length (ch after) \<le> 1
        \<and> (delivers (c, a, before, after) \<longrightarrow> ch before = []))
   \<and> (\<forall>h s'. exec self cs (newSimTimer dl, events0) = Inr (h, s') \<longrightarrow>
        length (ch (fst s')) \<le> 1 \<and> (\<forall>now. \<exists>b t. fire now (fst s') = Inr (b, t)))
   \<and> (has_room events0 \<longrightarrow> (\<exists>h s'. exec self cs (newSimTimer dl, events0) = Inr (h, s')))"
proof -
  have no_park: "\<forall>h t. exec self cs (newSimTimer dl, events0) \<noteq> Inl (h, ParkedFire t)"
    using exec_parked_inv [OF _ newSimTimer_inv, of self cs dl events0] by fastforce
  from history_completed [of self "(newSimTimer dl, events0)" cs] obtain cs1 s1 where
    run: "exec self cs1 (newSimTimer dl, events0) = Inr (history (exec self cs (newSimTimer dl, events0)), s1)"
    by blast
  from exec_flips [OF run]
  have once: "length (filter delivers (history (exec self cs (newSimTimer dl, events0)))) \<le> 1"
    by linarith
  have entries: "length (ch before) \<le> 1 \<and> length (ch after) \<le> 1
          \<and> (delivers (c, a, before, after) \<longrightarrow> ch before = [])"
    if e: "(c, a, before, after) \<in> set (history (exec self cs (newSimTimer dl, events0)))" for c a before after
  proof -
    from exec_entries_inv [OF run newSimTimer_inv e]
    have "length (ch before) \<le> 1" and "length (ch after) \<le> 1"
      by (simp_all add: timer_inv_def)
    moreover have "ch before = []" if "delivers (c, a, before, after)"
      using delivers_entry [OF run e that] fire_True by blast
    ultimately show ?thesis by blast
  qed
  then have slot: "\<forall>(c, a, before, after)\<in>set (history (exec self cs (newSimTimer dl, events0))).
        length (ch before) \<le> 1 \<and> length (ch after) \<le> 1
        \<and> (delivers (c, a, before, after) \<longrightarrow> ch before = [])"
    by blast
  have final: "length (ch (fst s')) \<le> 1 \<and> (\<forall>now. \<exists>b t. fire now (fst s') = Inr (b, t))"
    if ended: "exec self cs (newSimTimer dl, events0) = Inr (h, s')" for h s'
  proof -
    obtain timer' events' where s': "s' = (timer', events')" by (cases s')
    from exec_new_inv [OF ended [unfolded s']] have inv: "timer_inv timer'" .
    then have "length (ch timer') \<le> 1" by (simp add: timer_inv_def)
    moreover from inv have "\<forall>now. \<exists>b t. fire now timer' = Inr (b, t)"
      by (blast intro: fire_inv_returns)
    ultimately show ?thesis using s' by simp
  qed
  have total: "\<exists>h s'. exec self cs (newSimTimer dl, events0) = Inr (h, s')" if "has_room events0"
    using exec_total [OF newSimTimer_inv, of dl events0 self cs] that by auto
  from no_park once slot final total show ?thesis by blast
qed

theorem slot_gets_at_most_one_value_witness:
  "has_room \<lparr>remove = [], remove_cap = 1\<rparr>
   \<and> exec 0 [CallFire 12, CallFire 13, CallRecv, CallFire 14] (newSimTimer 10, \<lparr>remove = [], remove_cap = 1\<rparr>)
     = Inr ([(CallFire 12, Returned True,
          \<lparr>ch = [], stopped = False, deadline = 10\<rparr>,
          \<lparr>ch = [12], stopped = True, deadline = 10\<rparr>),
        (CallFire 13, Returned False,
          \<lparr>ch = [12], stopped = True, deadline = 10\<rparr>,
          \<lparr>ch = [12], stopped = True, deadline = 10\<rparr>),
        (CallRecv, Received (Some 12),
          \<lparr>ch = [12], stopped = True, deadline = 10\<rparr>,
          \<lparr>ch = [], stopped = True, deadline = 10\<rparr>),
        (CallFire 14, Returned False,
          \<lparr>ch = [], stopped = True, deadline = 10\<rparr>,
          \<lparr>ch = [], stopped = True, deadline = 10\<rparr>)],
        \<lparr>ch = [], stopped = True, deadline = 10\<rparr>, \<lparr>remove = [], remove_cap = 1\<rparr>)
   \<and> length (filter delivers
       [(CallFire 12, Returned True,
          \<lparr>ch = [], stopped = False, deadline = 10\<rparr>,
          \<lparr>ch = [12], stopped = True, deadline = 10\<rparr>),
        (CallFire 13, Returned False,
          \<lparr>ch = [12], stopped = True, deadline = 10\<rparr>,
          \<lparr>ch = [12], stopped = True, deadline = 10\<rparr>),
        (CallRecv, Received (Some 12),
          \<lparr>ch = [12], stopped = True, deadline = 10\<rparr>,
          \<lparr>ch = [], stopped = True, deadline = 10\<rparr>),
        (CallFire 14, Returned False,
          \<lparr>ch = [], stopped = True, deadline = 10\<rparr>,
          \<lparr>ch = [], stopped = True, deadline = 10\<rparr>)]) = 1"
proof -
  have run: "exec 0 [CallFire 12, CallFire 13, CallRecv, CallFire 14] (newSimTimer 10, \<lparr>remove = [], remove_cap = 1\<rparr>)
     = Inr ([(CallFire 12, Returned True,
          \<lparr>ch = [], stopped = False, deadline = 10\<rparr>,
          \<lparr>ch = [12], stopped = True, deadline = 10\<rparr>),
        (CallFire 13, Returned False,
          \<lparr>ch = [12], stopped = True, deadline = 10\<rparr>,
          \<lparr>ch = [12], stopped = True, deadline = 10\<rparr>),
        (CallRecv, Received (Some 12),
          \<lparr>ch = [12], stopped = True, deadline = 10\<rparr>,
          \<lparr>ch = [], stopped = True, deadline = 10\<rparr>),
        (CallFire 14, Returned False,
          \<lparr>ch = [], stopped = True, deadline = 10\<rparr>,
          \<lparr>ch = [], stopped = True, deadline = 10\<rparr>)],
        \<lparr>ch = [], stopped = True, deadline = 10\<rparr>, \<lparr>remove = [], remove_cap = 1\<rparr>)"
    by (simp add: newSimTimer_def Reset_def Stop_def fire_def After_def Equal_def chan_send_def ch_cap_def
        has_room_def Add_def addSec_def wrap64_def sec_def nsec_def representable_def
        signed_divide_int_def signed_modulo_int_def)
  from slot_gets_at_most_one_value
    [of 0 "[CallFire 12, CallFire 13, CallRecv, CallFire 14]" 10 "\<lparr>remove = [], remove_cap = 1\<rparr>"] run
  show ?thesis by (simp add: has_room_def)
qed

text \<open>
  C8. Once the flag is true no call changes the deadline: not \<^verbatim>\<open>Reset\<close>, not
  \<^verbatim>\<open>Stop\<close>, not \<^verbatim>\<open>fire\<close>, and no sequence of calls; none of them is parked then. In
  every run, a call that starts with the flag true ends with the flag true and the same
  deadline.
\<close>

theorem deadline_fixed_once_flag_set:
  "(stopped timer \<longrightarrow>
      (\<exists>h timer' events'. exec self cs (timer, events) = Inr (h, timer', events')
            \<and> stopped timer' \<and> deadline timer' = deadline timer)
      \<and> deadline (snd (Reset d timer)) = deadline timer
      \<and> (case Stop self timer events of
            Inl t \<Rightarrow> False | Inr (b, t, e) \<Rightarrow> deadline t = deadline timer)
      \<and> (case fire now timer of Inl t \<Rightarrow> False | Inr (b, t) \<Rightarrow> deadline t = deadline timer))
   \<and> (exec self cs0 (timer0, events0) = Inr (h0, s0) \<longrightarrow>
        (\<forall>(c, a, before, after)\<in>set h0.
            stopped before \<longrightarrow> stopped after \<and> deadline after = deadline before))"
proof -
  have frozen: "(\<exists>h timer' events'. exec self cs (timer, events) = Inr (h, timer', events')
            \<and> stopped timer' \<and> deadline timer' = deadline timer)
      \<and> deadline (snd (Reset d timer)) = deadline timer
      \<and> (case Stop self timer events of
            Inl t \<Rightarrow> False | Inr (b, t, e) \<Rightarrow> deadline t = deadline timer)
      \<and> (case fire now timer of Inl t \<Rightarrow> False | Inr (b, t) \<Rightarrow> deadline t = deadline timer)"
    if flag: "stopped timer"
  proof -
    from exec_stopped_total [OF flag, of self cs events] obtain h timer' events' where
      run: "exec self cs (timer, events) = Inr (h, timer', events')" by blast
    from exec_stopped [OF run flag] run
    have "\<exists>h timer' events'. exec self cs (timer, events) = Inr (h, timer', events')
            \<and> stopped timer' \<and> deadline timer' = deadline timer"
      by blast
    with flag show ?thesis
      by (simp add: Reset_stopped Stop_stopped fire_stopped)
  qed
  have entries: "stopped after \<and> deadline after = deadline before"
    if run: "exec self cs0 (timer0, events0) = Inr (h0, s0)"
      and e: "(c, a, before, after) \<in> set h0" and flag: "stopped before"
    for c a before after
  proof -
    from exec_entries [OF run e] obtain e1 e2 where
      "step self c (before, e1) = Inr (a, after, e2)" by blast
    from step_cases [OF this] flag show ?thesis by blast
  qed
  from frozen entries show ?thesis by blast
qed

theorem deadline_fixed_once_flag_set_witness:
  "stopped \<lparr>ch = [12], stopped = True, deadline = 10\<rparr>
   \<and> exec 0 [CallReset 5, CallFire 40, CallStop] (\<lparr>ch = [12], stopped = True, deadline = 10\<rparr>, \<lparr>remove = [], remove_cap = 0\<rparr>)
     = Inr ([(CallReset 5, Returned False,
          \<lparr>ch = [12], stopped = True, deadline = 10\<rparr>,
          \<lparr>ch = [12], stopped = True, deadline = 10\<rparr>),
        (CallFire 40, Returned False,
          \<lparr>ch = [12], stopped = True, deadline = 10\<rparr>,
          \<lparr>ch = [12], stopped = True, deadline = 10\<rparr>),
        (CallStop, Returned False,
          \<lparr>ch = [12], stopped = True, deadline = 10\<rparr>,
          \<lparr>ch = [12], stopped = True, deadline = 10\<rparr>)],
        \<lparr>ch = [12], stopped = True, deadline = 10\<rparr>, \<lparr>remove = [], remove_cap = 0\<rparr>)
   \<and> deadline (snd (Reset 5 \<lparr>ch = [12], stopped = True, deadline = 10\<rparr>)) = 10
   \<and> Stop 0 \<lparr>ch = [12], stopped = True, deadline = 10\<rparr> \<lparr>remove = [], remove_cap = 0\<rparr> = Inr (False, \<lparr>ch = [12], stopped = True, deadline = 10\<rparr>, \<lparr>remove = [], remove_cap = 0\<rparr>)
   \<and> fire 40 \<lparr>ch = [12], stopped = True, deadline = 10\<rparr> = Inr (False, \<lparr>ch = [12], stopped = True, deadline = 10\<rparr>)"
proof -
  have run: "exec 0 [CallReset 5, CallFire 40, CallStop] (\<lparr>ch = [12], stopped = True, deadline = 10\<rparr>, \<lparr>remove = [], remove_cap = 0\<rparr>)
     = Inr ([(CallReset 5, Returned False,
          \<lparr>ch = [12], stopped = True, deadline = 10\<rparr>,
          \<lparr>ch = [12], stopped = True, deadline = 10\<rparr>),
        (CallFire 40, Returned False,
          \<lparr>ch = [12], stopped = True, deadline = 10\<rparr>,
          \<lparr>ch = [12], stopped = True, deadline = 10\<rparr>),
        (CallStop, Returned False,
          \<lparr>ch = [12], stopped = True, deadline = 10\<rparr>,
          \<lparr>ch = [12], stopped = True, deadline = 10\<rparr>)],
        \<lparr>ch = [12], stopped = True, deadline = 10\<rparr>, \<lparr>remove = [], remove_cap = 0\<rparr>)"
    by (simp add: Reset_def Stop_def fire_def)
  from deadline_fixed_once_flag_set
    [of "\<lparr>ch = [12], stopped = True, deadline = 10\<rparr>" 0 "[CallReset 5, CallFire 40, CallStop]" "\<lparr>remove = [], remove_cap = 0\<rparr>" 5 40
      "[CallReset 5, CallFire 40, CallStop]" "\<lparr>ch = [12], stopped = True, deadline = 10\<rparr>" "\<lparr>remove = [], remove_cap = 0\<rparr>"
      "[(CallReset 5, Returned False,
          \<lparr>ch = [12], stopped = True, deadline = 10\<rparr>,
          \<lparr>ch = [12], stopped = True, deadline = 10\<rparr>),
        (CallFire 40, Returned False,
          \<lparr>ch = [12], stopped = True, deadline = 10\<rparr>,
          \<lparr>ch = [12], stopped = True, deadline = 10\<rparr>),
        (CallStop, Returned False,
          \<lparr>ch = [12], stopped = True, deadline = 10\<rparr>,
          \<lparr>ch = [12], stopped = True, deadline = 10\<rparr>)]"
      "(\<lparr>ch = [12], stopped = True, deadline = 10\<rparr>, \<lparr>remove = [], remove_cap = 0\<rparr>)"]
    run
  show ?thesis by (simp add: Reset_def Stop_def fire_def)
qed

text \<open>
  C9, as the code has it. On a timer not yet fired or stopped, \<^verbatim>\<open>Reset(delta)\<close>
  returns true and makes the deadline \<^verbatim>\<open>deadline.Add(delta)\<close> whatever the sign of
  \<open>delta\<close>. Whenever the deadline plus \<open>delta\<close> is representable, that is the new
  deadline: a zero delta leaves the timer as it was and a negative delta makes the deadline
  strictly earlier. A delta exists that puts the deadline of a pending timer before the
  current time, when the instant before the current time is representable and within
  reach of an \<^verbatim>\<open>int64\<close> of nanoseconds.
\<close>

theorem Reset_accepts_any_delta:
  assumes "\<not> stopped timer"
  shows "fst (Reset d timer) = True
    \<and> deadline (snd (Reset d timer)) = Add (deadline timer) d
    \<and> (representable (deadline timer + sint d) \<longrightarrow>
         deadline (snd (Reset d timer)) = deadline timer + sint d
         \<and> (sint d < 0 \<longrightarrow> deadline (snd (Reset d timer)) < deadline timer)
         \<and> (d = 0 \<longrightarrow> snd (Reset d timer) = timer))
    \<and> (representable (now - 1) \<and> now \<le> deadline timer \<and> deadline timer - now < 2 ^ 63 \<longrightarrow>
         (\<exists>d'. sint d' < 0 \<and> deadline (snd (Reset d' timer)) < now))"
proof -
  have exact: "deadline (snd (Reset d timer)) = deadline timer + sint d
         \<and> (sint d < 0 \<longrightarrow> deadline (snd (Reset d timer)) < deadline timer)
         \<and> (d = 0 \<longrightarrow> snd (Reset d timer) = timer)"
    if "representable (deadline timer + sint d)"
    using assms Add_exact [OF that] by (cases "d = 0") (simp_all add: Reset_def)
  have before: "\<exists>d'. sint d' < 0 \<and> deadline (snd (Reset d' timer)) < now"
    if rep: "representable (now - 1)" and pending: "now \<le> deadline timer"
      and reach: "deadline timer - now < 2 ^ 63"
  proof -
    define x where "x = now - 1 - deadline timer"
    define d' :: Duration where "d' = word_of_int x"
    from pending reach have "- (2 ^ 63) \<le> x" and "x < 2 ^ 63" and neg: "x < 0"
      by (simp_all add: x_def)
    then have sx: "sint d' = x"
      by (simp add: d'_def sint_sbintrunc' signed_take_bit_int_eq_self)
    with rep have "representable (deadline timer + sint d')" by (simp add: x_def)
    from Add_exact [OF this] assms sx have "deadline (snd (Reset d' timer)) = now - 1"
      by (simp add: Reset_def x_def)
    with sx neg show ?thesis by (intro exI [of _ d']) simp
  qed
  from assms have "fst (Reset d timer) = True
    \<and> deadline (snd (Reset d timer)) = Add (deadline timer) d"
    by (simp add: Reset_def)
  with exact before show ?thesis by blast
qed

theorem Reset_accepts_any_delta_witness:
  "\<not> stopped \<lparr>ch = [], stopped = False, deadline = 100\<rparr>
   \<and> sint (- 30 :: Duration) < 0
   \<and> representable (100 + sint (- 30 :: Duration))
   \<and> Reset (- 30) \<lparr>ch = [], stopped = False, deadline = 100\<rparr> = (True, \<lparr>ch = [], stopped = False, deadline = 70\<rparr>)
   \<and> Reset 0 \<lparr>ch = [], stopped = False, deadline = 100\<rparr> = (True, \<lparr>ch = [], stopped = False, deadline = 100\<rparr>)
   \<and> representable (80 - 1)
   \<and> (\<exists>d'. sint d' < 0 \<and> deadline (snd (Reset d' \<lparr>ch = [], stopped = False, deadline = 100\<rparr>)) < 80)"
proof -
  have live: "\<not> stopped \<lparr>ch = [], stopped = False, deadline = 100\<rparr>" by simp
  have rep: "representable (100 + sint (- 30 :: Duration))"
    "representable (100 + sint (0 :: Duration))" "representable (80 - 1)"
    by (simp_all add: representable_def sec_def)
  have results: "Reset (- 30) \<lparr>ch = [], stopped = False, deadline = 100\<rparr> = (True, \<lparr>ch = [], stopped = False, deadline = 70\<rparr>)"
    "Reset 0 \<lparr>ch = [], stopped = False, deadline = 100\<rparr> = (True, \<lparr>ch = [], stopped = False, deadline = 100\<rparr>)"
    by (simp_all add: Reset_def Add_def addSec_def wrap64_def sec_def nsec_def
        signed_divide_int_def signed_modulo_int_def)
  from Reset_accepts_any_delta [OF live, of "- 30" 80] Reset_accepts_any_delta [OF live, of 0 80]
    rep results
  show ?thesis by simp
qed

text \<open>
  C9 as stated fails at the ends of the range: at the earliest deadline that
  \<^verbatim>\<open>Add\<close> stops at, \<^verbatim>\<open>Reset\<close> of minus two seconds returns true and leaves the
  deadline where it was, not strictly earlier; and one second before the last second an
  instant can hold, \<^verbatim>\<open>Reset\<close> of two seconds moves the deadline by one second.
\<close>

theorem Reset_accepts_any_delta_counterexample:
  "representable (- 9223372036854775807000000000)
   \<and> sint (- 2000000000 :: Duration) < 0
   \<and> Reset (- 2000000000) \<lparr>ch = [], stopped = False, deadline = - 9223372036854775807000000000\<rparr>
       = (True, \<lparr>ch = [], stopped = False, deadline = - 9223372036854775807000000000\<rparr>)
   \<and> \<not> deadline (snd (Reset (- 2000000000) \<lparr>ch = [], stopped = False, deadline = - 9223372036854775807000000000\<rparr>))
         < deadline \<lparr>ch = [], stopped = False, deadline = - 9223372036854775807000000000\<rparr>
   \<and> sint (2000000000 :: Duration) = 2000000000
   \<and> deadline (snd (Reset 2000000000 \<lparr>ch = [], stopped = False, deadline = 9223372036854775806000000000\<rparr>))
       = 9223372036854775806000000000 + 1000000000"
  by (simp add: Reset_def Add_def addSec_def wrap64_def sec_def nsec_def representable_def
      signed_divide_int_def signed_modulo_int_def)

text \<open>
  C10. Whenever \<^verbatim>\<open>fire(at)\<close> returns false, the timer is exactly as before the call:
  flag, deadline and the contents of the delivery slot. It returns false when the timer
  is already fired or stopped, and when \<open>at\<close> is before the deadline.
\<close>

theorem fire_false_changes_nothing:
  "(fire now timer = Inr (False, timer') \<longrightarrow>
      timer' = timer \<and> stopped timer' = stopped timer \<and> deadline timer' = deadline timer
      \<and> ch timer' = ch timer)
   \<and> (stopped timer \<or> now < deadline timer \<longrightarrow> fire now timer = Inr (False, timer))"
proof -
  have "timer' = timer" if "fire now timer = Inr (False, timer')"
    using that by (auto simp: fire_def Let_def split: if_splits option.splits)
  moreover have "fire now timer = Inr (False, timer)" if "stopped timer \<or> now < deadline timer"
    using that by (auto simp: fire_def After_def Equal_def)
  ultimately show ?thesis by blast
qed

theorem fire_false_changes_nothing_witness:
  "fire 5 \<lparr>ch = [], stopped = False, deadline = 10\<rparr>
     = Inr (False, \<lparr>ch = [], stopped = False, deadline = 10\<rparr>)
   \<and> fire 30 \<lparr>ch = [20], stopped = True, deadline = 10\<rparr>
     = Inr (False, \<lparr>ch = [20], stopped = True, deadline = 10\<rparr>)"
  using fire_false_changes_nothing
    [of 5 "\<lparr>ch = [], stopped = False, deadline = 10\<rparr>" "\<lparr>ch = [], stopped = False, deadline = 10\<rparr>"]
    fire_false_changes_nothing
    [of 30 "\<lparr>ch = [20], stopped = True, deadline = 10\<rparr>" "\<lparr>ch = [20], stopped = True, deadline = 10\<rparr>"]
  by simp

end
